theory Spec2Isabelle
  imports Complex_Main "HOL-Library.Multiset"
begin

section \<open>Points\<close>

text \<open>
  Modelled from the spec: the class \<open>Point2D<double>\<close> is not among the sources; the spec
  describes it as a geometry collaborator exposing coordinate access and Euclidean distance.
  Its operations follow the generic \<open>Point<T>\<close> of \<open>Point.h\<close> (a sum of squared coordinate
  differences, then \<open>sqrt\<close>), specialised to two coordinates. A \<open>double\<close> is
  modelled as a real number and the arithmetic of the geometry is exact. Rounding is
  written out in the probabilistic query, where the code compares the rounded difference
  \<open>1 - probUB\<close> through its logarithm with 0. The evaluations at concrete inputs below
  use coordinates whose differences, squares, sums and square roots are doubles, so that
  the exact arithmetic of the model and the arithmetic of the code agree there.
\<close>

type_synonym point = "real \<times> real"

definition getX :: "point \<Rightarrow> real" where
  "getX p = fst p"

definition getY :: "point \<Rightarrow> real" where
  "getY p = snd p"

definition squaredDistance :: "point \<Rightarrow> point \<Rightarrow> real" where
  "squaredDistance p q =
     (getX p - getX q) * (getX p - getX q) + (getY p - getY q) * (getY p - getY q)"

definition distance :: "point \<Rightarrow> point \<Rightarrow> real" where
  "distance p q = sqrt (squaredDistance p q)"

definition length_point :: "point \<Rightarrow> real" where
  "length_point p = sqrt (getX p * getX p + getY p * getY p)"

section \<open>The node\<close>

text \<open>
  What stops a call: a failed \<open>assert\<close>, a vector read outside its bounds, and a
  conversion of a number that the target type cannot hold.
\<close>

datatype error = AssertionFailed | OutOfBounds | Undefined

text \<open>
  The fields of \<open>QuadNodeCartesianEuclid<T>\<close> other than \<open>children\<close>. The element type
  \<open>T\<close> is an unsigned index (\<open>nat\<close>); \<open>count\<close> and \<open>index\<close> are \<open>int64_t\<close>,
  modelled as \<open>int\<close> (no tree holds \<open>2^63\<close> elements). The field \<open>lowerBoundR\<close> is
  never read or written and is left out.
\<close>

record node_fields =
  minX :: real
  minY :: real
  maxX :: real
  maxY :: real
  capacity :: nat
  subTreeSize :: int
  content :: "nat list"
  positions :: "point list"
  isLeaf :: bool
  splitTheoretical :: bool
  ID :: int

datatype QuadNode = QuadNode (fields: node_fields) (children: "QuadNode list")

definition coarsenLimit :: int where
  "coarsenLimit = 4"

definition sanityNodeLimit :: nat where
  "sanityNodeLimit = 10 ^ 16"

text \<open>\<open>std::numeric_limits<double>::max()\<close>, the largest finite double.\<close>

definition DBL_MAX :: real where
  "DBL_MAX = (2 ^ 53 - 1) * 2 ^ 971"

text \<open>The constructor \<open>QuadNodeCartesianEuclid(lower, upper, capacity, splitTheoretical)\<close>.\<close>

definition newQuadNode :: "point \<Rightarrow> point \<Rightarrow> nat \<Rightarrow> bool \<Rightarrow> QuadNode" where
  "newQuadNode lower upper cap st =
     QuadNode \<lparr>minX = getX lower, minY = getY lower, maxX = getX upper, maxY = getY upper,
       capacity = cap, subTreeSize = 0, content = [], positions = [], isLeaf = True,
       splitTheoretical = st, ID = 0\<rparr> []"

definition responsible :: "node_fields \<Rightarrow> point \<Rightarrow> bool" where
  "responsible f pos =
     (getX pos \<ge> minX f \<and> getY pos \<ge> minY f \<and> getX pos < maxX f \<and> getY pos < maxY f)"

text \<open>\<open>size()\<close>: the buffer length of a leaf, the cached count of an internal node.\<close>

definition size_node :: "node_fields \<Rightarrow> int" where
  "size_node f = (if isLeaf f then int (length (content f)) else subTreeSize f)"

subsection \<open>Distance bounds of a region\<close>

text \<open>The lambda \<open>updateMinMax\<close>; the state is the pair (minDistance, maxDistance).\<close>

definition updateMinMax :: "point \<Rightarrow> point \<Rightarrow> real \<times> real \<Rightarrow> real \<times> real" where
  "updateMinMax query pos mm =
     (let extremalValue = distance pos query
      in (min (fst mm) extremalValue, max extremalValue (snd mm)))"

text \<open>
  \<open>EuclideanDistances(query)\<close> with its two assertions. The distances and the comparisons
  of the assertions are exact here, where the code rounds every distance: on coordinates
  whose distances are not doubles an assertion of the code can decide otherwise than the
  model. What is proved of this function is an evaluation at coordinates with exact
  distances, or a property of the pair that the model returns.
\<close>

definition EuclideanDistances :: "node_fields \<Rightarrow> point \<Rightarrow> error + (real \<times> real)" where
  "EuclideanDistances f query =
     (let mm0 = (if responsible f query then 0 else DBL_MAX, 0);
          mm1 = (if getX query > minX f \<and> getX query < maxX f
                 then updateMinMax query (getX query, minY f)
                        (updateMinMax query (getX query, maxY f) mm0)
                 else mm0);
          mm2 = (if getY query > minY f \<and> getY query < maxY f
                 then updateMinMax query (minX f, getY query)
                        (updateMinMax query (maxX f, getY query) mm1)
                 else mm1);
          mm3 = updateMinMax query (maxX f, maxY f)
                  (updateMinMax query (maxX f, minY f)
                    (updateMinMax query (minX f, maxY f)
                      (updateMinMax query (minX f, minY f) mm2)))
      in if \<not> fst mm3 < length_point query + length_point (maxX f, maxY f)
         then Inl AssertionFailed
         else if \<not> fst mm3 < snd mm3 then Inl AssertionFailed
         else Inr mm3)"

definition outOfReach :: "node_fields \<Rightarrow> point \<Rightarrow> real \<Rightarrow> error + bool" where
  "outOfReach f query radius =
     (case EuclideanDistances f query of
        Inl e \<Rightarrow> Inl e
      | Inr d \<Rightarrow> Inr (fst d > radius))"

subsection \<open>Splitting\<close>

text \<open>
  \<open>split()\<close>. With the median policy the code reads \<open>sortedX[numPoints/2]\<close>, which is
  outside the vector when the buffer is empty.
\<close>

definition split :: "QuadNode \<Rightarrow> error + QuadNode" where
  "split n =
     (let f = fields n in
      if \<not> isLeaf f then Inl AssertionFailed
      else
        case (if splitTheoretical f
              then Inr ((minX f + maxX f) / 2, (minY f + maxY f) / 2)
              else
                let numPoints = length (positions f);
                    sortedX = sort (map getX (positions f));
                    sortedY = sort (map getY (positions f))
                in if numPoints div 2 < numPoints
                   then Inr (sortedX ! (numPoints div 2), sortedY ! (numPoints div 2))
                   else Inl OutOfBounds) of
          Inl e \<Rightarrow> Inl e
        | Inr middle \<Rightarrow>
            if \<not> getX middle > minX f then Inl AssertionFailed
            else if \<not> getX middle < maxX f then Inl AssertionFailed
            else if \<not> getY middle > minY f then Inl AssertionFailed
            else if \<not> getY middle < maxY f then Inl AssertionFailed
            else
              let southwest = newQuadNode (minX f, minY f) middle (capacity f) (splitTheoretical f);
                  southeast = newQuadNode (getX middle, minY f) (maxX f, getY middle)
                                (capacity f) (splitTheoretical f);
                  northwest = newQuadNode (minX f, getY middle) (getX middle, maxY f)
                                (capacity f) (splitTheoretical f);
                  northeast = newQuadNode middle (maxX f, maxY f) (capacity f) (splitTheoretical f)
              in Inr (QuadNode (f\<lparr>isLeaf := False\<rparr>) [southwest, southeast, northwest, northeast]))"

subsection \<open>Insertion\<close>

text \<open>The index of the first child responsible for a position, if there is one.\<close>

fun findResponsibleChild :: "QuadNode list \<Rightarrow> point \<Rightarrow> nat option" where
  "findResponsibleChild [] pos = None"
| "findResponsibleChild (c # cs) pos =
     (if responsible (fields c) pos then Some 0
      else map_option Suc (findResponsibleChild cs pos))"

text \<open>A loop whose body may fail or not return: the state is threaded through the list.\<close>

fun foldRes :: "('s \<Rightarrow> 'x \<Rightarrow> (error + 's) option) \<Rightarrow> 'x list \<Rightarrow> 's \<Rightarrow> (error + 's) option" where
  "foldRes g [] s = Some (Inr s)"
| "foldRes g (x # xs) s =
     (case g s x of
        None \<Rightarrow> None
      | Some (Inl e) \<Rightarrow> Some (Inl e)
      | Some (Inr s') \<Rightarrow> foldRes g xs s')"

text \<open>
  \<open>addContent(input, pos)\<close>. The recursion descends into children that the call itself
  creates, and nothing bounds its depth (a full leaf of equal points splits forever under
  the midpoint policy), so the model takes fuel: \<open>None\<close> is a call that has not returned
  within the given depth, \<open>Some (Inl e)\<close> a stopped call, \<open>Some (Inr n)\<close> the node after
  the call. The reinsertion loop runs on the node itself, which is internal by then and
  keeps its buffer until the loop is over.
\<close>

fun addContent :: "nat \<Rightarrow> QuadNode \<Rightarrow> nat \<Rightarrow> point \<Rightarrow> (error + QuadNode) option" where
  "addContent 0 n input pos = None"
| "addContent (Suc k) n input pos =
     (let f = fields n in
      if \<not> input < sanityNodeLimit then Some (Inl AssertionFailed)
      else if length (content f) \<noteq> length (positions f) then Some (Inl AssertionFailed)
      else if \<not> responsible f pos then Some (Inl AssertionFailed)
      else if isLeaf f then
        if length (content f) + 1 < capacity f
        then Some (Inr (QuadNode (f\<lparr>content := content f @ [input],
                                      positions := positions f @ [pos]\<rparr>) (children n)))
        else
          case split n of
            Inl e \<Rightarrow> Some (Inl e)
          | Inr n1 \<Rightarrow>
              (case foldRes (\<lambda>m x. addContent k m (fst x) (snd x))
                      (zip (content f) (positions f)) n1 of
                 None \<Rightarrow> None
               | Some (Inl e) \<Rightarrow> Some (Inl e)
               | Some (Inr n2) \<Rightarrow>
                   if subTreeSize (fields n2) \<noteq> int (length (content (fields n2)))
                   then Some (Inl AssertionFailed)
                   else addContent k
                          (QuadNode ((fields n2)\<lparr>subTreeSize := int (length (content (fields n2))),
                                                content := [], positions := []\<rparr>) (children n2))
                          input pos)
      else if children n = [] then Some (Inl AssertionFailed)
      else
        case findResponsibleChild (children n) pos of
          None \<Rightarrow> Some (Inl AssertionFailed)
        | Some i \<Rightarrow>
            (case addContent k (children n ! i) input pos of
               None \<Rightarrow> None
             | Some (Inl e) \<Rightarrow> Some (Inl e)
             | Some (Inr c') \<Rightarrow>
                 Some (Inr (QuadNode (f\<lparr>subTreeSize := subTreeSize f + 1\<rparr>)
                              ((children n)[i := c'])))))"

subsection \<open>Removal\<close>

text \<open>The scan \<open>for (; i < content.size(); i++) if (content[i] == input) break;\<close>.\<close>

fun indexOf :: "nat list \<Rightarrow> nat \<Rightarrow> nat" where
  "indexOf [] x = 0"
| "indexOf (y # ys) x = (if y = x then 0 else Suc (indexOf ys x))"

definition erase :: "'a list \<Rightarrow> nat \<Rightarrow> 'a list" where
  "erase xs i = take i xs @ drop (Suc i) xs"

text \<open>
  \<open>removeContent(input, pos)\<close> returns the flag and the node after the call. The loop over
  the children carries \<open>removed\<close> and \<open>allLeaves\<close>; \<open>allLeaves\<close> looks at each child
  before the removal in that child.
\<close>

fun removeContent :: "QuadNode \<Rightarrow> nat \<Rightarrow> point \<Rightarrow> error + (bool \<times> QuadNode)"
  and removeContentChildren ::
    "QuadNode list \<Rightarrow> nat \<Rightarrow> point \<Rightarrow> bool \<Rightarrow> bool \<Rightarrow> error + (bool \<times> bool \<times> QuadNode list)"
where
  "removeContent (QuadNode f cs) input pos =
     (if \<not> responsible f pos then Inr (False, QuadNode f cs)
      else if isLeaf f then
        let i = indexOf (content f) input in
        if i < length (content f) then
          if \<not> i < length (positions f) then Inl OutOfBounds
          else if distance (positions f ! i) pos \<noteq> 0 then Inl AssertionFailed
          else Inr (True, QuadNode (f\<lparr>content := erase (content f) i,
                                        positions := erase (positions f) i\<rparr>) cs)
        else Inr (False, QuadNode f cs)
      else if cs = [] then Inl AssertionFailed
      else
        case removeContentChildren cs input pos False True of
          Inl e \<Rightarrow> Inl e
        | Inr (removed, allLeaves, cs') \<Rightarrow>
            let f1 = (if removed then f\<lparr>subTreeSize := subTreeSize f - 1\<rparr> else f) in
            if removed \<and> allLeaves \<and> size_node f1 < coarsenLimit then
              let allContent = concat (map (\<lambda>c. content (fields c)) cs');
                  allPositions = concat (map (\<lambda>c. positions (fields c)) cs')
              in if length allContent \<noteq> length allPositions then Inl AssertionFailed
                 else Inr (removed, QuadNode (f1\<lparr>content := allContent, positions := allPositions,
                                                  isLeaf := True\<rparr>) [])
            else Inr (removed, QuadNode f1 cs'))"
| "removeContentChildren [] input pos removed allLeaves = Inr (removed, allLeaves, [])"
| "removeContentChildren (c # cs) input pos removed allLeaves =
     (let allLeaves' = (if \<not> isLeaf (fields c) then False else allLeaves) in
      case removeContent c input pos of
        Inl e \<Rightarrow> Inl e
      | Inr (found, c') \<Rightarrow>
          if found \<and> removed then Inl AssertionFailed
          else
            case removeContentChildren cs input pos (removed \<or> found) allLeaves' of
              Inl e \<Rightarrow> Inl e
            | Inr (r, a, cs') \<Rightarrow> Inr (r, a, c' # cs'))"

subsection \<open>Stored elements\<close>

text \<open>
  The pairs (identifier, position) a subtree stores, in the order of \<open>getElements\<close> and
  \<open>getCoordinates\<close>: the buffer of a leaf, the children's pairs one child after the other
  for an internal node.
\<close>

fun storedPairs :: "QuadNode \<Rightarrow> (nat \<times> point) list" where
  "storedPairs (QuadNode f cs) =
     (if isLeaf f then zip (content f) (positions f)
      else concat (map storedPairs cs))"

subsection \<open>Exact range query\<close>

text \<open>
  The loop of a leaf in \<open>getElementsInEuclideanCircle\<close>: entry \<open>i\<close> of both vectors is
  read for every \<open>i\<close> below \<open>content.size()\<close>.
\<close>

fun circleLeafLoop :: "nat list \<Rightarrow> point list \<Rightarrow> point \<Rightarrow> real \<Rightarrow> nat list \<Rightarrow> error + nat list" where
  "circleLeafLoop [] ps center rsq result = Inr result"
| "circleLeafLoop (c # cs) [] center rsq result = Inl OutOfBounds"
| "circleLeafLoop (c # cs) (p # ps) center rsq result =
     (let deltaX = getX p - getX center;
          deltaY = getY p - getY center
      in if deltaX * deltaX + deltaY * deltaY < rsq
         then (if \<not> c < sanityNodeLimit then Inl AssertionFailed
               else circleLeafLoop cs ps center rsq (result @ [c]))
         else circleLeafLoop cs ps center rsq result)"

fun getElementsInEuclideanCircle :: "QuadNode \<Rightarrow> point \<Rightarrow> real \<Rightarrow> nat list \<Rightarrow> error + nat list"
  and getElementsInEuclideanCircleChildren ::
    "QuadNode list \<Rightarrow> point \<Rightarrow> real \<Rightarrow> nat list \<Rightarrow> error + nat list"
where
  "getElementsInEuclideanCircle (QuadNode f cs) center radius result =
     (case outOfReach f center radius of
        Inl e \<Rightarrow> Inl e
      | Inr out \<Rightarrow>
          if out then Inr result
          else if isLeaf f
          then circleLeafLoop (content f) (positions f) center (radius * radius) result
          else getElementsInEuclideanCircleChildren cs center radius result)"
| "getElementsInEuclideanCircleChildren [] center radius result = Inr result"
| "getElementsInEuclideanCircleChildren (c # cs) center radius result =
     (case getElementsInEuclideanCircle c center radius result of
        Inl e \<Rightarrow> Inl e
      | Inr result' \<Rightarrow> getElementsInEuclideanCircleChildren cs center radius result')"

text \<open>The brute-force scan of the spec: every stored pair is tested by its distance.\<close>

definition bruteForceCircle :: "QuadNode \<Rightarrow> point \<Rightarrow> real \<Rightarrow> nat list" where
  "bruteForceCircle t center radius =
     map fst (filter (\<lambda>e. distance (snd e) center < radius) (storedPairs t))"

subsection \<open>Probabilistic query\<close>

text \<open>
  \<open>Aux::Random::real()\<close> is not among the sources; the query takes the sequence of the
  values it returns and counts the draws. \<open>std::log\<close> of a double is a real logarithm
  above zero, minus infinity at zero and not a number below; the quotient of two such
  values follows, for the operands that reach it (the divisor is never zero, the code
  returns before).
\<close>

type_synonym rng = "nat \<Rightarrow> real"

datatype xreal = Finite real | PosInf | NegInf | NaN

text \<open>
  The double nearest to a real number, a tie going to the even significand. A double has
  53 significant bits; \<open>ulpExponent\<close> is the exponent of the last of them, which stops
  at -1074 for the numbers below \<open>2^-1022\<close>. Numbers from \<open>2^1024\<close> on, which round to
  an infinity, do not come up: the function rounds \<open>1 - probUB\<close> for a probability.
\<close>

definition roundToEven :: "real \<Rightarrow> int" where
  "roundToEven y =
     (let n = \<lfloor>y\<rfloor> in
      if y - real_of_int n < 1 / 2 then n
      else if 1 / 2 < y - real_of_int n then n + 1
      else if even n then n else n + 1)"

definition ulpExponent :: "real \<Rightarrow> int" where
  "ulpExponent x = max \<lfloor>log 2 \<bar>x\<bar>\<rfloor> (- 1022) - 52"

definition roundDouble :: "real \<Rightarrow> real" where
  "roundDouble x =
     (if x = 0 then 0
      else real_of_int (roundToEven (x / 2 powr real_of_int (ulpExponent x)))
             * 2 powr real_of_int (ulpExponent x))"

definition std_log :: "real \<Rightarrow> xreal" where
  "std_log x = (if 0 < x then Finite (ln x) else if x = 0 then NegInf else NaN)"

fun xdiv :: "xreal \<Rightarrow> xreal \<Rightarrow> xreal" where
  "xdiv (Finite a) (Finite b) = (if b = 0 then NaN else Finite (a / b))"
| "xdiv NegInf (Finite b) = (if b < 0 then PosInf else if 0 < b then NegInf else NaN)"
| "xdiv (Finite a) NegInf = Finite 0"
| "xdiv a b = NaN"

text \<open>The conversion of a double to an integer type: the fraction is cut off.\<close>

definition trunc :: "real \<Rightarrow> int" where
  "trunc x = (if 0 \<le> x then \<lfloor>x\<rfloor> else \<lceil>x\<rceil>)"

text \<open>
  One jump: \<open>delta = std::log(random) / probdenom; assert(delta >= 0); i += delta\<close>.
  The sum is a double, converted back to the type of \<open>i\<close>, which holds values below
  \<open>bound\<close> only.
\<close>

definition jump :: "real \<Rightarrow> xreal \<Rightarrow> int \<Rightarrow> int \<Rightarrow> error + int" where
  "jump random probdenom i bound =
     (case xdiv (std_log random) probdenom of
        Finite delta \<Rightarrow>
          if \<not> delta \<ge> 0 then Inl AssertionFailed
          else if real_of_int i + delta \<ge> real_of_int bound then Inl Undefined
          else Inr (trunc (real_of_int i + delta))
      | PosInf \<Rightarrow> Inl Undefined
      | NegInf \<Rightarrow> Inl AssertionFailed
      | NaN \<Rightarrow> Inl AssertionFailed)"

lemma trunc_mono_add: "0 \<le> i \<Longrightarrow> 0 \<le> d \<Longrightarrow> i \<le> trunc (real_of_int i + d)"
  by (simp add: trunc_def le_floor_iff)

lemma jump_ge: "jump r d i b = Inr i' \<Longrightarrow> 0 \<le> i \<Longrightarrow> i \<le> i'"
  by (auto simp: jump_def trunc_mono_add split: xreal.splits if_splits)

text \<open>
  The loop of a leaf in \<open>getElementsProbabilistically\<close>, from index \<open>i\<close> on. The state
  is (candidatesTested, draws, result). The index starts at 0 and only grows, so the
  test \<open>0 \<le> i\<close> of the model never fails where the test \<open>i < lsize\<close> of the source holds.
\<close>

function leafLoop ::
  "rng \<Rightarrow> node_fields \<Rightarrow> point \<Rightarrow> (real \<Rightarrow> real) \<Rightarrow> real \<times> real \<Rightarrow> real \<Rightarrow> xreal \<Rightarrow> int \<Rightarrow>
   int \<times> nat \<times> nat list \<Rightarrow> error + (int \<times> nat \<times> nat list)" where
  "leafLoop rnd f euQuery prob distancePair probUB probdenom i (tested, c, result) =
     (let lsize = int (length (content f)) in
      if \<not> (0 \<le> i \<and> i < lsize) then Inr (tested, c, result)
      else
        case (if probUB < 1
              then (case jump (rnd c) probdenom i (2 ^ 31) of
                      Inl e \<Rightarrow> Inl e
                    | Inr i' \<Rightarrow> Inr (i', c + 1))
              else Inr (i, c)) of
          Inl e \<Rightarrow> Inl e
        | Inr (i', c') \<Rightarrow>
            if i' \<ge> lsize then Inr (tested, c', result)
            else if \<not> nat i' < length (positions f) then Inl OutOfBounds
            else
              let dist = distance (positions f ! nat i') euQuery in
              if \<not> dist \<ge> fst distancePair then Inl AssertionFailed
              else if \<not> dist \<le> snd distancePair then Inl AssertionFailed
              else
                let q = prob dist / probUB in
                if \<not> q \<le> 1 then Inl AssertionFailed
                else
                  let acc = rnd c' in
                  leafLoop rnd f euQuery prob distancePair probUB probdenom (i' + 1)
                    (tested + 1, c' + 1,
                     if acc < q then result @ [content f ! nat i'] else result))"
  by pat_completeness auto
termination
  by (relation "measure (\<lambda>(rnd, f, euQuery, prob, distancePair, probUB, probdenom, i, st).
                  nat (int (length (content f)) - i))")
     (auto split: if_splits sum.splits dest: jump_ge)

declare leafLoop.simps [simp del]

text \<open>\<open>maybeGetKthElement\<close>; the state is (draws, result).\<close>

fun maybeGetKthElement ::
  "rng \<Rightarrow> QuadNode \<Rightarrow> real \<Rightarrow> point \<Rightarrow> (real \<Rightarrow> real) \<Rightarrow> int \<Rightarrow> nat \<times> nat list \<Rightarrow>
   error + (nat \<times> nat list)"
  and maybeGetKthElementChildren ::
  "rng \<Rightarrow> QuadNode list \<Rightarrow> real \<Rightarrow> point \<Rightarrow> (real \<Rightarrow> real) \<Rightarrow> int \<Rightarrow> int \<Rightarrow> nat \<times> nat list \<Rightarrow>
   error + (nat \<times> nat list)"
where
  "maybeGetKthElement rnd (QuadNode f cs) upperBound euQuery prob k (c, circleDenizens) =
     (if \<not> k < size_node f then Inl AssertionFailed
      else if isLeaf f then
        if k < 0 \<or> \<not> nat k < length (positions f) then Inl OutOfBounds
        else
          let acceptance = prob (distance euQuery (positions f ! nat k)) / upperBound
          in Inr (c + 1,
                  if rnd c < acceptance then circleDenizens @ [content f ! nat k]
                  else circleDenizens)
      else maybeGetKthElementChildren rnd cs upperBound euQuery prob k 0 (c, circleDenizens))"
| "maybeGetKthElementChildren rnd [] upperBound euQuery prob k offset st = Inr st"
| "maybeGetKthElementChildren rnd (ch # cs) upperBound euQuery prob k offset st =
     (let childsize = size_node (fields ch) in
      if k - offset < childsize
      then maybeGetKthElement rnd ch upperBound euQuery prob (k - offset) st
      else maybeGetKthElementChildren rnd cs upperBound euQuery prob k (offset + childsize) st)"

text \<open>
  The loop of the direct candidate selection on an internal node, from index \<open>i\<close> on.
  The state is (candidatesTested, draws, result). The index starts at 0 and only grows,
  as in the loop of a leaf.
\<close>

function directLoop ::
  "rng \<Rightarrow> QuadNode \<Rightarrow> point \<Rightarrow> (real \<Rightarrow> real) \<Rightarrow> real \<Rightarrow> xreal \<Rightarrow> int \<Rightarrow> int \<Rightarrow>
   int \<times> nat \<times> nat list \<Rightarrow> error + (int \<times> nat \<times> nat list)" where
  "directLoop rnd n euQuery prob probUB probdenom stsize i (tested, c, result) =
     (if \<not> (0 \<le> i \<and> i < stsize) then Inr (tested, c, result)
      else
        case jump (rnd c) probdenom i (2 ^ 63) of
          Inl e \<Rightarrow> Inl e
        | Inr i' \<Rightarrow>
            if i' < size_node (fields n) then
              (case maybeGetKthElement rnd n probUB euQuery prob i' (c + 1, result) of
                 Inl e \<Rightarrow> Inl e
               | Inr (c', result') \<Rightarrow>
                   directLoop rnd n euQuery prob probUB probdenom stsize (i' + 1)
                     (tested + 1, c', result'))
            else Inr (tested, c + 1, result))"
  by pat_completeness auto
termination
  by (relation "measure (\<lambda>(rnd, n, euQuery, prob, probUB, probdenom, stsize, i, st).
                  nat (stsize - i))")
     (auto dest: jump_ge)

declare directLoop.simps [simp del]

text \<open>
  The test that sends an internal node to the direct candidate selection:
  \<open>expectedNeighbours < 4 || probUB < 1/1000\<close>, where \<open>expectedNeighbours\<close> is the
  \<open>count\<close> that \<open>probUB*size()\<close> converts to and \<open>1/1000\<close> divides two \<open>int\<close>s.
\<close>

definition selectDirectly :: "real \<Rightarrow> int \<Rightarrow> bool" where
  "selectDirectly probUB ownsize =
     (let expectedNeighbours = trunc (probUB * real_of_int ownsize)
      in expectedNeighbours < 4 \<or> probUB < real_of_int (1 div 1000))"

text \<open>
  \<open>getElementsProbabilistically\<close>: the state going in is (draws, result), the value is
  (candidatesTested, draws, result). \<open>probdenom = std::log(1-probUB)\<close> is the logarithm
  of the double that the difference rounds to; the logarithm of a double is 0 at 1 only,
  so the test \<open>probdenom == 0\<close> holds exactly when the difference rounds to 1.
\<close>

fun getElementsProbabilistically ::
  "rng \<Rightarrow> QuadNode \<Rightarrow> point \<Rightarrow> (real \<Rightarrow> real) \<Rightarrow> nat \<times> nat list \<Rightarrow>
   error + (int \<times> nat \<times> nat list)"
  and getElementsProbabilisticallyChildren ::
  "rng \<Rightarrow> QuadNode list \<Rightarrow> point \<Rightarrow> (real \<Rightarrow> real) \<Rightarrow> int \<times> nat \<times> nat list \<Rightarrow>
   error + (int \<times> nat \<times> nat list)"
where
  "getElementsProbabilistically rnd (QuadNode f cs) euQuery prob (c, result) =
     (case EuclideanDistances f euQuery of
        Inl e \<Rightarrow> Inl e
      | Inr distancePair \<Rightarrow>
          let probUB0 = prob (fst distancePair);
              probLB = prob (snd distancePair)
          in if \<not> probLB \<le> probUB0 then Inl AssertionFailed
             else
               let probUB = (if probUB0 > 0.5 then 1 else probUB0) in
               if probUB = 0 then Inr (0, c, result)
               else
                 let probdenom = std_log (roundDouble (1 - probUB)) in
                 if probdenom = Finite 0 then Inr (0, c, result)
                 else
                   let incomingNeighbours = int (length result);
                       ownsize = size_node f
                   in case (if isLeaf f
                            then leafLoop rnd f euQuery prob distancePair probUB probdenom 0
                                   (0, c, result)
                            else if selectDirectly probUB (size_node f)
                            then (if \<not> probUB < 1 then Inl AssertionFailed
                                  else directLoop rnd (QuadNode f cs) euQuery prob probUB probdenom
                                         (size_node f) 0 (0, c, result))
                            else getElementsProbabilisticallyChildren rnd cs euQuery prob
                                   (0, c, result)) of
                        Inl e \<Rightarrow> Inl e
                      | Inr (candidatesTested, c', result') \<Rightarrow>
                          if probLB = 1 \<and> int (length result') \<noteq> incomingNeighbours + ownsize
                          then Inl AssertionFailed
                          else Inr (candidatesTested, c', result'))"
| "getElementsProbabilisticallyChildren rnd [] euQuery prob st = Inr st"
| "getElementsProbabilisticallyChildren rnd (ch # cs) euQuery prob (candidatesTested, c, result) =
     (case getElementsProbabilistically rnd ch euQuery prob (c, result) of
        Inl e \<Rightarrow> Inl e
      | Inr (tested, c', result') \<Rightarrow>
          getElementsProbabilisticallyChildren rnd cs euQuery prob
            (candidatesTested + tested, c', result'))"

subsection \<open>Maintenance\<close>

text \<open>\<open>recount()\<close>.\<close>

fun recount :: "QuadNode \<Rightarrow> QuadNode" where
  "recount (QuadNode f cs) =
     (let cs' = map recount cs
      in QuadNode (f\<lparr>subTreeSize := sum_list (map (\<lambda>c. size_node (fields c)) cs')\<rparr>) cs')"

text \<open>\<open>indexSubtree(nextID)\<close> returns the node and the next free identifier.\<close>

fun indexSubtree :: "QuadNode \<Rightarrow> int \<Rightarrow> error + (QuadNode \<times> int)"
  and indexSubtreeChildren :: "QuadNode list \<Rightarrow> int \<Rightarrow> error + (QuadNode list \<times> int)"
where
  "indexSubtree (QuadNode f cs) nextID =
     (if \<not> (length cs = 4 \<or> length cs = 0) then Inl AssertionFailed
      else
        case indexSubtreeChildren cs nextID of
          Inl e \<Rightarrow> Inl e
        | Inr (cs', result) \<Rightarrow> Inr (QuadNode (f\<lparr>ID := result\<rparr>) cs', result + 1))"
| "indexSubtreeChildren [] result = Inr ([], result)"
| "indexSubtreeChildren (c # cs) result =
     (case indexSubtree c result of
        Inl e \<Rightarrow> Inl e
      | Inr (c', result') \<Rightarrow>
          (case indexSubtreeChildren cs result' of
             Inl e \<Rightarrow> Inl e
           | Inr (cs', result'') \<Rightarrow> Inr (c' # cs', result'')))"

text \<open>
  \<open>reindex(offset)\<close> returns the node and the offset after it. An internal node visits
  \<open>children[0]\<close> to \<open>children[3]\<close>, whatever the length of the vector: the loop over
  the children takes the number of children still to visit.
\<close>

fun reindex :: "QuadNode \<Rightarrow> nat \<Rightarrow> error + (QuadNode \<times> nat)"
  and reindexChildren :: "QuadNode list \<Rightarrow> nat \<Rightarrow> nat \<Rightarrow> error + (QuadNode list \<times> nat)"
where
  "reindex (QuadNode f cs) offset =
     (if isLeaf f
      then Inr (QuadNode (f\<lparr>content := [offset ..< offset + length (content f)]\<rparr>) cs,
                offset + nat (size_node f))
      else
        case reindexChildren cs (Suc (Suc (Suc (Suc 0)))) offset of
          Inl e \<Rightarrow> Inl e
        | Inr (cs', offset') \<Rightarrow> Inr (QuadNode f cs', offset'))"
| "reindexChildren cs 0 offset = Inr (cs, offset)"
| "reindexChildren [] (Suc n) offset = Inl OutOfBounds"
| "reindexChildren (c # cs) (Suc n) offset =
     (case reindex c offset of
        Inl e \<Rightarrow> Inl e
      | Inr (c', offset') \<Rightarrow>
          (case reindexChildren cs n offset' of
             Inl e \<Rightarrow> Inl e
           | Inr (cs', offset'') \<Rightarrow> Inr (c' # cs', offset'')))"

text \<open>
  \<open>sortPointsInLeaves()\<close>. \<open>std::sort\<close> leaves the order of entries with equal keys
  open; the model takes the stable order, one of the orders it may produce.
\<close>

fun sortPointsInLeaves :: "QuadNode \<Rightarrow> error + QuadNode"
  and sortPointsInLeavesChildren :: "QuadNode list \<Rightarrow> nat \<Rightarrow> error + QuadNode list"
where
  "sortPointsInLeaves (QuadNode f cs) =
     (if isLeaf f then
        let csize = length (content f);
            permutation = sort_key (\<lambda>i. getX (positions f ! i)) [0 ..< csize]
        in if length (positions f) < csize then Inl OutOfBounds
           else Inr (QuadNode (f\<lparr>content := map (\<lambda>perm. content f ! perm) permutation,
                                   positions := map (\<lambda>perm. positions f ! perm) permutation\<rparr>) cs)
      else
        case sortPointsInLeavesChildren cs (Suc (Suc (Suc (Suc 0)))) of
          Inl e \<Rightarrow> Inl e
        | Inr cs' \<Rightarrow> Inr (QuadNode f cs'))"
| "sortPointsInLeavesChildren cs 0 = Inr cs"
| "sortPointsInLeavesChildren [] (Suc n) = Inl OutOfBounds"
| "sortPointsInLeavesChildren (c # cs) (Suc n) =
     (case sortPointsInLeaves c of
        Inl e \<Rightarrow> Inl e
      | Inr c' \<Rightarrow>
          (case sortPointsInLeavesChildren cs n of
             Inl e \<Rightarrow> Inl e
           | Inr cs' \<Rightarrow> Inr (c' # cs')))"

section \<open>Notions used by the statements\<close>

text \<open>Nodes of a subtree, their identifiers in post-order, and the subtree without them.\<close>

fun countNodes :: "QuadNode \<Rightarrow> nat" where
  "countNodes (QuadNode f cs) = Suc (sum_list (map countNodes cs))"

fun postorderIDs :: "QuadNode \<Rightarrow> int list" where
  "postorderIDs (QuadNode f cs) = concat (map postorderIDs cs) @ [ID f]"

fun clearIDs :: "QuadNode \<Rightarrow> QuadNode" where
  "clearIDs (QuadNode f cs) = QuadNode (f\<lparr>ID := 0\<rparr>) (map clearIDs cs)"

fun fourOrNone :: "QuadNode \<Rightarrow> bool" where
  "fourOrNone (QuadNode f cs) = ((length cs = 4 \<or> length cs = 0) \<and> list_all fourOrNone cs)"

definition consecutive :: "int \<Rightarrow> nat \<Rightarrow> int list" where
  "consecutive n k = map (\<lambda>i. n + int i) [0 ..< k]"

text \<open>
  The closed rectangle of a region, the points \<open>EuclideanDistances\<close> evaluates, in its
  order, and the pair it has computed when it reaches its assertions.
\<close>

definition inRectangle :: "node_fields \<Rightarrow> point \<Rightarrow> bool" where
  "inRectangle f p =
     (minX f \<le> getX p \<and> getX p \<le> maxX f \<and> minY f \<le> getY p \<and> getY p \<le> maxY f)"

definition candidates :: "node_fields \<Rightarrow> point \<Rightarrow> point list" where
  "candidates f query =
     (if getX query > minX f \<and> getX query < maxX f
      then [(getX query, maxY f), (getX query, minY f)] else []) @
     (if getY query > minY f \<and> getY query < maxY f
      then [(maxX f, getY query), (minX f, getY query)] else []) @
     [(minX f, minY f), (minX f, maxY f), (maxX f, minY f), (maxX f, maxY f)]"

definition regionBounds :: "node_fields \<Rightarrow> point \<Rightarrow> real \<times> real" where
  "regionBounds f query =
     foldl (\<lambda>mm pos. updateMinMax query pos mm)
       (if responsible f query then 0 else DBL_MAX, 0) (candidates f query)"

subsection \<open>Well-formed trees\<close>

text \<open>
  A region inside another; what a node has in common before and after an operation; what
  a child shares with its parent; the conditions of a node on its own fields and
  children; the sum of the children's \<open>size()\<close>. A tree is well formed when every node
  meets these conditions and every internal node has an empty buffer and a cached size
  equal to that sum. \<open>leavesBounded\<close> is the bound of every leaf buffer by
  \<open>capacity - 1\<close>. \<open>built\<close> are the trees that a constructor call followed by
  returning insertions and removals produces; \<open>adds\<close> and \<open>addsAll\<close> are the
  returning runs of \<open>addContent\<close> and of its reinsertion loop.
\<close>

definition inside :: "node_fields \<Rightarrow> node_fields \<Rightarrow> bool" where
  "inside c f =
     (minX f \<le> minX c \<and> maxX c \<le> maxX f \<and> minY f \<le> minY c \<and> maxY c \<le> maxY f)"

definition frame :: "node_fields \<Rightarrow> real \<times> real \<times> real \<times> real \<times> nat \<times> bool" where
  "frame f = (minX f, minY f, maxX f, maxY f, capacity f, splitTheoretical f)"

definition childOK :: "node_fields \<Rightarrow> node_fields \<Rightarrow> bool" where
  "childOK c f =
     (inside c f \<and> capacity c = capacity f \<and> splitTheoretical c = splitTheoretical f \<and>
      minX c < maxX c \<and> minY c < maxY c)"

definition nodeOK :: "node_fields \<Rightarrow> QuadNode list \<Rightarrow> bool" where
  "nodeOK f cs =
     (length (content f) = length (positions f) \<and>
      (\<forall>p \<in> set (positions f). responsible f p) \<and>
      (\<forall>x \<in> set (content f). x < sanityNodeLimit) \<and>
      (isLeaf f \<longrightarrow> cs = []) \<and>
      (\<not> isLeaf f \<longrightarrow> length cs = 4) \<and>
      (\<forall>c \<in> set cs. childOK (fields c) f))"

definition sumSizes :: "QuadNode list \<Rightarrow> int" where
  "sumSizes cs = sum_list (map (\<lambda>c. size_node (fields c)) cs)"

fun wellFormed :: "QuadNode \<Rightarrow> bool" where
  "wellFormed (QuadNode f cs) =
     (nodeOK f cs \<and>
      (\<not> isLeaf f \<longrightarrow> content f = [] \<and> subTreeSize f = sumSizes cs) \<and>
      (\<forall>c \<in> set cs. wellFormed c))"


inductive built :: "QuadNode \<Rightarrow> bool" where
  constructed: "built (newQuadNode lower upper cap st)"
| added: "built t \<Longrightarrow> addContent fuel t input pos = Some (Inr t') \<Longrightarrow> built t'"
| removed: "built t \<Longrightarrow> removeContent t input pos = Inr (found, t') \<Longrightarrow> built t'"

inductive adds :: "QuadNode \<Rightarrow> nat \<Rightarrow> point \<Rightarrow> QuadNode \<Rightarrow> bool"
  and addsAll :: "QuadNode \<Rightarrow> (nat \<times> point) list \<Rightarrow> QuadNode \<Rightarrow> bool"
where
  room:
    "input < sanityNodeLimit \<Longrightarrow> length (content f) = length (positions f) \<Longrightarrow>
     responsible f pos \<Longrightarrow> isLeaf f \<Longrightarrow> length (content f) + 1 < capacity f \<Longrightarrow>
     adds (QuadNode f cs) input pos
       (QuadNode (f\<lparr>content := content f @ [input], positions := positions f @ [pos]\<rparr>) cs)"
| full:
    "input < sanityNodeLimit \<Longrightarrow> length (content f) = length (positions f) \<Longrightarrow>
     responsible f pos \<Longrightarrow> isLeaf f \<Longrightarrow> \<not> length (content f) + 1 < capacity f \<Longrightarrow>
     split (QuadNode f cs) = Inr n1 \<Longrightarrow>
     addsAll n1 (zip (content f) (positions f)) n2 \<Longrightarrow>
     subTreeSize (fields n2) = int (length (content (fields n2))) \<Longrightarrow>
     adds (QuadNode ((fields n2)\<lparr>subTreeSize := int (length (content (fields n2))),
                                content := [], positions := []\<rparr>) (children n2)) input pos n' \<Longrightarrow>
     adds (QuadNode f cs) input pos n'"
| internal:
    "input < sanityNodeLimit \<Longrightarrow> length (content f) = length (positions f) \<Longrightarrow>
     responsible f pos \<Longrightarrow> \<not> isLeaf f \<Longrightarrow>
     findResponsibleChild cs pos = Some i \<Longrightarrow>
     adds (cs ! i) input pos c' \<Longrightarrow>
     adds (QuadNode f cs) input pos (QuadNode (f\<lparr>subTreeSize := subTreeSize f + 1\<rparr>) (cs[i := c']))"
| all_nil: "addsAll n [] n"
| all_cons: "adds n (fst x) (snd x) n1 \<Longrightarrow> addsAll n1 xs n2 \<Longrightarrow> addsAll n (x # xs) n2"

definition weakOK :: "QuadNode \<Rightarrow> bool" where
  "weakOK n = (nodeOK (fields n) (children n) \<and> (\<forall>c \<in> set (children n). wellFormed c))"

text \<open>What an insertion of \<open>k\<close> elements and what a removal leave of a node.\<close>

definition addedTo :: "QuadNode \<Rightarrow> QuadNode \<Rightarrow> int \<Rightarrow> bool" where
  "addedTo n n' k =
     (weakOK n' \<and> frame (fields n') = frame (fields n) \<and>
      (isLeaf (fields n) \<longrightarrow> k = 1 \<and> wellFormed n' \<and> size_node (fields n') = size_node (fields n) + 1) \<and>
      (\<not> isLeaf (fields n) \<longrightarrow>
         \<not> isLeaf (fields n') \<and> content (fields n') = content (fields n) \<and>
         positions (fields n') = positions (fields n) \<and>
         subTreeSize (fields n') = subTreeSize (fields n) + k \<and>
         sumSizes (children n') = sumSizes (children n) + k))"

definition removedFrom :: "QuadNode \<Rightarrow> QuadNode \<Rightarrow> bool \<Rightarrow> bool" where
  "removedFrom n n' b =
     (wellFormed n' \<and> frame (fields n') = frame (fields n) \<and>
      size_node (fields n') = size_node (fields n) - (if b then 1 else 0) \<and>
      (isLeaf (fields n) \<longrightarrow> isLeaf (fields n')) \<and> (\<not> b \<longrightarrow> n' = n))"

subsection \<open>Paired buffers\<close>

text \<open>
  The pairing of a tree: in every node the two buffers have the same length. A tree
  without its identifiers, and without its buffers; the buffers of the leaves as lists of
  pairs, in the order of the leaves; leaves whose buffers are sorted by the x-coordinate;
  what \<open>sortPointsInLeaves\<close> keeps of a tree.
\<close>

fun paired :: "QuadNode \<Rightarrow> bool" where
  "paired (QuadNode f cs) =
     (length (content f) = length (positions f) \<and> (\<forall>c \<in> set cs. paired c))"

fun forgetIds :: "QuadNode \<Rightarrow> QuadNode" where
  "forgetIds (QuadNode f cs) =
     QuadNode (f\<lparr>content := replicate (length (content f)) 0\<rparr>) (map forgetIds cs)"

fun forgetBuffers :: "QuadNode \<Rightarrow> QuadNode" where
  "forgetBuffers (QuadNode f cs) =
     QuadNode (f\<lparr>content := [], positions := []\<rparr>) (map forgetBuffers cs)"

fun leafBuffers :: "QuadNode \<Rightarrow> (nat \<times> point) list list" where
  "leafBuffers (QuadNode f cs) =
     (if isLeaf f then [zip (content f) (positions f)] else concat (map leafBuffers cs))"

definition sortedBuffers :: "QuadNode \<Rightarrow> bool" where
  "sortedBuffers t = (\<forall>buf \<in> set (leafBuffers t). sorted (map (\<lambda>e. getX (snd e)) buf))"

definition sortedFrom :: "QuadNode \<Rightarrow> QuadNode \<Rightarrow> bool" where
  "sortedFrom t t' =
     (paired t' \<and> map mset (leafBuffers t') = map mset (leafBuffers t) \<and>
      forgetBuffers t' = forgetBuffers t)"

subsection \<open>Example trees\<close>

text \<open>The unit square of capacity 4 after \<open>split()\<close>.\<close>

definition quadrants :: QuadNode where
  "quadrants =
     QuadNode \<lparr>minX = 0, minY = 0, maxX = 1, maxY = 1, capacity = 4, subTreeSize = 0,
       content = [], positions = [], isLeaf = False, splitTheoretical = True, ID = 0\<rparr>
       [newQuadNode (0, 0) (1 / 2, 1 / 2) 4 True,
        newQuadNode (1 / 2, 0) (1, 1 / 2) 4 True,
        newQuadNode (0, 1 / 2) (1 / 2, 1) 4 True,
        newQuadNode (1 / 2, 1 / 2) (1, 1) 4 True]"

text \<open>
  The unit square of capacity 2 after the insertion of 0 at (1/4, 1/4) and of 1 at
  (3/4, 3/4), and the same tree after the removal of 1.
\<close>

definition twoPoints :: QuadNode where
  "twoPoints =
     QuadNode \<lparr>minX = 0, minY = 0, maxX = 1, maxY = 1, capacity = 2, subTreeSize = 2,
       content = [], positions = [], isLeaf = False, splitTheoretical = True, ID = 0\<rparr>
       [QuadNode \<lparr>minX = 0, minY = 0, maxX = 1 / 2, maxY = 1 / 2, capacity = 2, subTreeSize = 0,
          content = [0], positions = [(1 / 4, 1 / 4)], isLeaf = True, splitTheoretical = True,
          ID = 0\<rparr> [],
        newQuadNode (1 / 2, 0) (1, 1 / 2) 2 True,
        newQuadNode (0, 1 / 2) (1 / 2, 1) 2 True,
        QuadNode \<lparr>minX = 1 / 2, minY = 1 / 2, maxX = 1, maxY = 1, capacity = 2, subTreeSize = 0,
          content = [1], positions = [(3 / 4, 3 / 4)], isLeaf = True, splitTheoretical = True,
          ID = 0\<rparr> []]"

definition twoPointsCoarsened :: QuadNode where
  "twoPointsCoarsened =
     QuadNode \<lparr>minX = 0, minY = 0, maxX = 1, maxY = 1, capacity = 2, subTreeSize = 1,
       content = [0], positions = [(1 / 4, 1 / 4)], isLeaf = True, splitTheoretical = True,
       ID = 0\<rparr> []"

text \<open>The region with corners (0, 0) and (3, 4) as a leaf that holds 7 at (3/2, 2).\<close>

definition lowerLeftStored :: node_fields where
  "lowerLeftStored = \<lparr>minX = 0, minY = 0, maxX = 3, maxY = 4, capacity = 4, subTreeSize = 0,
       content = [7], positions = [(3 / 2, 2)], isLeaf = True, splitTheoretical = True, ID = 0\<rparr>"

text \<open>A region with corners (-3, -4) and (0, 0).\<close>

definition upperRight :: node_fields where
  "upperRight = \<lparr>minX = - 3, minY = - 4, maxX = 0, maxY = 0, capacity = 4, subTreeSize = 0,
       content = [], positions = [], isLeaf = True, splitTheoretical = True, ID = 0\<rparr>"

text \<open>The unit square of capacity 2 after the insertion of 0 at (1/4, 1/4).\<close>

definition onePoint :: QuadNode where
  "onePoint =
     QuadNode \<lparr>minX = 0, minY = 0, maxX = 1, maxY = 1, capacity = 2, subTreeSize = 0,
       content = [0], positions = [(1 / 4, 1 / 4)], isLeaf = True, splitTheoretical = True,
       ID = 0\<rparr> []"

text \<open>
  The region with corners (-3, -4) and (3, 4), capacity 2, after the insertion of 0 at
  (0, 1), and after the insertion of 1 at (-3, -4), which splits it at the origin.
\<close>

definition originLeaf :: QuadNode where
  "originLeaf =
     QuadNode \<lparr>minX = - 3, minY = - 4, maxX = 3, maxY = 4, capacity = 2, subTreeSize = 0,
       content = [0], positions = [(0, 1)], isLeaf = True, splitTheoretical = True, ID = 0\<rparr> []"

definition originTree :: QuadNode where
  "originTree =
     QuadNode \<lparr>minX = - 3, minY = - 4, maxX = 3, maxY = 4, capacity = 2, subTreeSize = 2,
       content = [], positions = [], isLeaf = False, splitTheoretical = True, ID = 0\<rparr>
       [QuadNode \<lparr>minX = - 3, minY = - 4, maxX = 0, maxY = 0, capacity = 2, subTreeSize = 0,
          content = [1], positions = [(- 3, - 4)], isLeaf = True, splitTheoretical = True,
          ID = 0\<rparr> [],
        newQuadNode (0, - 4) (3, 0) 2 True,
        newQuadNode (- 3, 0) (0, 4) 2 True,
        QuadNode \<lparr>minX = 0, minY = 0, maxX = 3, maxY = 4, capacity = 2, subTreeSize = 0,
          content = [0], positions = [(0, 1)], isLeaf = True, splitTheoretical = True,
          ID = 0\<rparr> []]"



text \<open>
  The unit square of capacity 3 after the insertion of 0 at (3/8, 1/8) and of 1 at
  (1/8, 3/8); after the insertion of 2 at (3/4, 3/4), which splits it; the tree with its
  leaves sorted, and reindexed from 5; and the leaf that the removal of 2 coarsens the
  tree to.
\<close>

definition unsortedLeaf :: QuadNode where
  "unsortedLeaf =
     QuadNode \<lparr>minX = 0, minY = 0, maxX = 1, maxY = 1, capacity = 3, subTreeSize = 0,
       content = [0, 1], positions = [(3 / 8, 1 / 8), (1 / 8, 3 / 8)], isLeaf = True,
       splitTheoretical = True, ID = 0\<rparr> []"

definition coarsenedLeaf :: QuadNode where
  "coarsenedLeaf =
     QuadNode \<lparr>minX = 0, minY = 0, maxX = 1, maxY = 1, capacity = 3, subTreeSize = 2,
       content = [0, 1], positions = [(3 / 8, 1 / 8), (1 / 8, 3 / 8)], isLeaf = True,
       splitTheoretical = True, ID = 0\<rparr> []"

definition unsortedTree :: QuadNode where
  "unsortedTree =
     QuadNode \<lparr>minX = 0, minY = 0, maxX = 1, maxY = 1, capacity = 3, subTreeSize = 3,
       content = [], positions = [], isLeaf = False, splitTheoretical = True, ID = 0\<rparr>
       [QuadNode \<lparr>minX = 0, minY = 0, maxX = 1 / 2, maxY = 1 / 2, capacity = 3, subTreeSize = 0,
          content = [0, 1], positions = [(3 / 8, 1 / 8), (1 / 8, 3 / 8)], isLeaf = True,
          splitTheoretical = True, ID = 0\<rparr> [],
        newQuadNode (1 / 2, 0) (1, 1 / 2) 3 True,
        newQuadNode (0, 1 / 2) (1 / 2, 1) 3 True,
        QuadNode \<lparr>minX = 1 / 2, minY = 1 / 2, maxX = 1, maxY = 1, capacity = 3, subTreeSize = 0,
          content = [2], positions = [(3 / 4, 3 / 4)], isLeaf = True, splitTheoretical = True,
          ID = 0\<rparr> []]"

definition sortedTree :: QuadNode where
  "sortedTree =
     QuadNode \<lparr>minX = 0, minY = 0, maxX = 1, maxY = 1, capacity = 3, subTreeSize = 3,
       content = [], positions = [], isLeaf = False, splitTheoretical = True, ID = 0\<rparr>
       [QuadNode \<lparr>minX = 0, minY = 0, maxX = 1 / 2, maxY = 1 / 2, capacity = 3, subTreeSize = 0,
          content = [1, 0], positions = [(1 / 8, 3 / 8), (3 / 8, 1 / 8)], isLeaf = True,
          splitTheoretical = True, ID = 0\<rparr> [],
        newQuadNode (1 / 2, 0) (1, 1 / 2) 3 True,
        newQuadNode (0, 1 / 2) (1 / 2, 1) 3 True,
        QuadNode \<lparr>minX = 1 / 2, minY = 1 / 2, maxX = 1, maxY = 1, capacity = 3, subTreeSize = 0,
          content = [2], positions = [(3 / 4, 3 / 4)], isLeaf = True, splitTheoretical = True,
          ID = 0\<rparr> []]"

definition reindexedTree :: QuadNode where
  "reindexedTree =
     QuadNode \<lparr>minX = 0, minY = 0, maxX = 1, maxY = 1, capacity = 3, subTreeSize = 3,
       content = [], positions = [], isLeaf = False, splitTheoretical = True, ID = 0\<rparr>
       [QuadNode \<lparr>minX = 0, minY = 0, maxX = 1 / 2, maxY = 1 / 2, capacity = 3, subTreeSize = 0,
          content = [5, 6], positions = [(3 / 8, 1 / 8), (1 / 8, 3 / 8)], isLeaf = True,
          splitTheoretical = True, ID = 0\<rparr> [],
        newQuadNode (1 / 2, 0) (1, 1 / 2) 3 True,
        newQuadNode (0, 1 / 2) (1 / 2, 1) 3 True,
        QuadNode \<lparr>minX = 1 / 2, minY = 1 / 2, maxX = 1, maxY = 1, capacity = 3, subTreeSize = 0,
          content = [7], positions = [(3 / 4, 3 / 4)], isLeaf = True, splitTheoretical = True,
          ID = 0\<rparr> []]"

section \<open>Basic facts\<close>

lemmas eval_defs = newQuadNode_def getX_def getY_def responsible_def sanityNodeLimit_def
  split_def Let_def size_node_def coarsenLimit_def erase_def distance_def squaredDistance_def

lemma sqrt_9: "sqrt 9 = 3"
  using real_sqrt_abs[of 3] by simp

lemma sqrt_16: "sqrt 16 = 4"
  using real_sqrt_abs[of 4] by simp

lemma sqrt_25: "sqrt 25 = 5"
  using real_sqrt_abs[of 5] by simp

lemma sqrt_100: "sqrt 100 = 10"
  using real_sqrt_abs[of 10] by simp

lemmas geometry_defs = EuclideanDistances_def updateMinMax_def length_point_def DBL_MAX_def
  distance_def squaredDistance_def getX_def getY_def responsible_def Let_def
  sqrt_9 sqrt_16 sqrt_25 sqrt_100

lemma distance_eq_0_iff: "distance a b = 0 \<longleftrightarrow> a = b"
proof -
  have "(fst a - fst b) * (fst a - fst b) + (snd a - snd b) * (snd a - snd b) = 0
        \<longleftrightarrow> fst a = fst b \<and> snd a = snd b"
    by (simp add: sum_squares_eq_zero_iff)
  then show ?thesis
    by (simp add: distance_def squaredDistance_def getX_def getY_def prod_eq_iff)
qed

lemma indexOf_le: "indexOf xs x \<le> length xs"
  by (induction xs) auto

lemma indexOf_nth: "indexOf xs x < length xs \<Longrightarrow> xs ! indexOf xs x = x"
  by (induction xs) (auto split: if_splits)

lemma indexOf_less_iff: "indexOf xs x < length xs \<longleftrightarrow> x \<in> set xs"
  by (induction xs) auto

lemma mset_erase: "i < length xs \<Longrightarrow> mset (erase xs i) + {#xs ! i#} = mset xs"
proof -
  assume i: "i < length xs"
  have "mset xs = mset (take i xs @ xs ! i # drop (Suc i) xs)"
    by (rule arg_cong[where f = mset, OF id_take_nth_drop[OF i]])
  then show ?thesis by (simp add: erase_def)
qed

lemma length_erase: "i < length xs \<Longrightarrow> length (erase xs i) = length xs - 1"
  by (auto simp: erase_def)

section \<open>Distance bounds of a region\<close>

lemma EuclideanDistances_eq:
  "EuclideanDistances f q =
     (if \<not> fst (regionBounds f q) < length_point q + length_point (maxX f, maxY f)
      then Inl AssertionFailed
      else if \<not> fst (regionBounds f q) < snd (regionBounds f q) then Inl AssertionFailed
      else Inr (regionBounds f q))"
  by (simp add: EuclideanDistances_def regionBounds_def candidates_def Let_def)

lemma distance_nonneg: "0 \<le> distance a b"
  by (simp add: distance_def squaredDistance_def)

lemma sq_le_of_abs_le: "\<bar>a\<bar> \<le> \<bar>b\<bar> \<Longrightarrow> a * a \<le> b * (b :: real)"
  using abs_le_square_iff[of a b] by (simp add: power2_eq_square)

lemma sq_less_of_abs_less: "\<bar>a\<bar> < \<bar>b\<bar> \<Longrightarrow> a * a < b * (b :: real)"
  using abs_le_square_iff[of b a] by (simp add: power2_eq_square not_le[symmetric])

lemma distance_mono:
  assumes "\<bar>getX c - getX q\<bar> \<le> \<bar>getX p - getX q\<bar>" and "\<bar>getY c - getY q\<bar> \<le> \<bar>getY p - getY q\<bar>"
  shows "distance c q \<le> distance p q"
  using sq_le_of_abs_le[OF assms(1)] sq_le_of_abs_le[OF assms(2)]
  by (simp add: distance_def squaredDistance_def add_mono)

lemma distance_strict_mono:
  assumes "\<bar>getX c - getX q\<bar> < \<bar>getX p - getX q\<bar>" and "\<bar>getY c - getY q\<bar> \<le> \<bar>getY p - getY q\<bar>"
  shows "distance c q < distance p q"
  using sq_less_of_abs_less[OF assms(1)] sq_le_of_abs_le[OF assms(2)]
  by (simp add: distance_def squaredDistance_def add_less_le_mono)

lemma fst_updateMinMax: "fst (updateMinMax q p mm) = min (fst mm) (distance p q)"
  by (simp add: updateMinMax_def Let_def)

lemma snd_updateMinMax: "snd (updateMinMax q p mm) = max (distance p q) (snd mm)"
  by (simp add: updateMinMax_def Let_def)

lemma fold_min_le:
  "fst (foldl (\<lambda>mm pos. updateMinMax q pos mm) mm ps) \<le> fst mm"
  "p \<in> set ps \<Longrightarrow> fst (foldl (\<lambda>mm pos. updateMinMax q pos mm) mm ps) \<le> distance p q"
proof (induction ps arbitrary: mm)
  case Nil
  { case 1 show ?case by simp }
  { case 2 then show ?case by simp }
next
  case (Cons a ps)
  { case 1
    have "fst (foldl (\<lambda>mm pos. updateMinMax q pos mm) (updateMinMax q a mm) ps)
            \<le> fst (updateMinMax q a mm)"
      by (rule Cons.IH(1))
    then show ?case by (simp add: fst_updateMinMax) }
  { case 2
    show ?case
    proof (cases "p = a")
      case True
      have "fst (foldl (\<lambda>mm pos. updateMinMax q pos mm) (updateMinMax q a mm) ps)
            \<le> fst (updateMinMax q a mm)"
        by (rule Cons.IH(1))
      then show ?thesis using True by (simp add: fst_updateMinMax)
    next
      case False
      with 2 have "p \<in> set ps" by simp
      from Cons.IH(2)[OF this] show ?thesis by simp
    qed }
qed

lemma fold_max_ge:
  "snd mm \<le> snd (foldl (\<lambda>mm pos. updateMinMax q pos mm) mm ps)"
  "p \<in> set ps \<Longrightarrow> distance p q \<le> snd (foldl (\<lambda>mm pos. updateMinMax q pos mm) mm ps)"
proof (induction ps arbitrary: mm)
  case Nil
  { case 1 show ?case by simp }
  { case 2 then show ?case by simp }
next
  case (Cons a ps)
  { case 1
    have "snd (updateMinMax q a mm)
            \<le> snd (foldl (\<lambda>mm pos. updateMinMax q pos mm) (updateMinMax q a mm) ps)"
      by (rule Cons.IH(1))
    then show ?case by (simp add: snd_updateMinMax) }
  { case 2
    show ?case
    proof (cases "p = a")
      case True
      have "snd (updateMinMax q a mm)
            \<le> snd (foldl (\<lambda>mm pos. updateMinMax q pos mm) (updateMinMax q a mm) ps)"
        by (rule Cons.IH(1))
      then show ?thesis using True by (simp add: snd_updateMinMax)
    next
      case False
      with 2 have "p \<in> set ps" by simp
      from Cons.IH(2)[OF this] show ?thesis by simp
    qed }
qed

lemma fold_min_attained:
  "fst (foldl (\<lambda>mm pos. updateMinMax q pos mm) mm ps) = fst mm \<or>
   (\<exists>p \<in> set ps. fst (foldl (\<lambda>mm pos. updateMinMax q pos mm) mm ps) = distance p q)"
proof (induction ps arbitrary: mm)
  case Nil
  show ?case by simp
next
  case (Cons a ps)
  from Cons.IH[of "updateMinMax q a mm"] show ?case
    by (auto simp: fst_updateMinMax min_def split: if_splits)
qed

lemma fold_max_attained:
  "snd (foldl (\<lambda>mm pos. updateMinMax q pos mm) mm ps) = snd mm \<or>
   (\<exists>p \<in> set ps. snd (foldl (\<lambda>mm pos. updateMinMax q pos mm) mm ps) = distance p q)"
proof (induction ps arbitrary: mm)
  case Nil
  show ?case by simp
next
  case (Cons a ps)
  from Cons.IH[of "updateMinMax q a mm"] show ?case
    by (auto simp: snd_updateMinMax max_def split: if_splits)
qed


lemma candidates_inRectangle:
  "minX f \<le> maxX f \<Longrightarrow> minY f \<le> maxY f \<Longrightarrow> p \<in> set (candidates f q) \<Longrightarrow> inRectangle f p"
  by (auto simp: candidates_def inRectangle_def getX_def getY_def split: if_splits)

lemma corners_candidates:
  "(minX f, minY f) \<in> set (candidates f q)" "(minX f, maxY f) \<in> set (candidates f q)"
  "(maxX f, minY f) \<in> set (candidates f q)" "(maxX f, maxY f) \<in> set (candidates f q)"
  by (simp_all add: candidates_def)

lemma nearest_candidate:
  assumes "inRectangle f p" and "\<not> responsible f q"
  shows "\<exists>c \<in> set (candidates f q). distance c q \<le> distance p q"
proof -
  define cx where "cx = (if getX q \<le> minX f then minX f else if getX q < maxX f then getX q else maxX f)"
  define cy where "cy = (if getY q \<le> minY f then minY f else if getY q < maxY f then getY q else maxY f)"
  have x: "\<bar>cx - getX q\<bar> \<le> \<bar>getX p - getX q\<bar>"
    using assms(1) by (auto simp: cx_def inRectangle_def)
  have y: "\<bar>cy - getY q\<bar> \<le> \<bar>getY p - getY q\<bar>"
    using assms(1) by (auto simp: cy_def inRectangle_def)
  have "distance (cx, cy) q \<le> distance p q"
    by (rule distance_mono) (simp_all add: getX_def getY_def x[unfolded getX_def] y[unfolded getY_def])
  moreover have "(cx, cy) \<in> set (candidates f q)"
    using assms(2) by (auto simp: cx_def cy_def candidates_def responsible_def)
  ultimately show ?thesis by blast
qed

lemma farthest_candidate:
  assumes "inRectangle f p"
  shows "\<exists>c \<in> set (candidates f q). distance p q \<le> distance c q"
proof -
  define cx where "cx = (if \<bar>maxX f - getX q\<bar> \<le> \<bar>minX f - getX q\<bar> then minX f else maxX f)"
  define cy where "cy = (if \<bar>maxY f - getY q\<bar> \<le> \<bar>minY f - getY q\<bar> then minY f else maxY f)"
  have x: "\<bar>getX p - getX q\<bar> \<le> \<bar>cx - getX q\<bar>"
    using assms(1) by (auto simp: cx_def inRectangle_def)
  have y: "\<bar>getY p - getY q\<bar> \<le> \<bar>cy - getY q\<bar>"
    using assms(1) by (auto simp: cy_def inRectangle_def)
  have "distance p q \<le> distance (cx, cy) q"
    by (rule distance_mono) (simp_all add: getX_def getY_def x[unfolded getX_def] y[unfolded getY_def])
  moreover have "(cx, cy) \<in> set (candidates f q)"
    by (auto simp: cx_def cy_def candidates_def)
  ultimately show ?thesis by blast
qed

lemma regionBounds_lower:
  assumes "inRectangle f p"
  shows "fst (regionBounds f q) \<le> distance p q"
proof (cases "responsible f q")
  case True
  have "fst (regionBounds f q) \<le> 0"
    unfolding regionBounds_def using fold_min_le(1)[of q "(0, 0)" "candidates f q"] True by simp
  then show ?thesis using distance_nonneg[of p q] by linarith
next
  case False
  from nearest_candidate[OF assms False] obtain c where
    c: "c \<in> set (candidates f q)" "distance c q \<le> distance p q" by blast
  have "fst (regionBounds f q) \<le> distance c q"
    unfolding regionBounds_def by (rule fold_min_le(2)[OF c(1)])
  with c(2) show ?thesis by linarith
qed

lemma regionBounds_upper:
  assumes "inRectangle f p"
  shows "distance p q \<le> snd (regionBounds f q)"
proof -
  from farthest_candidate[OF assms] obtain c where
    c: "c \<in> set (candidates f q)" "distance p q \<le> distance c q" by blast
  have "distance c q \<le> snd (regionBounds f q)"
    unfolding regionBounds_def by (rule fold_max_ge(2)[OF c(1)])
  with c(2) show ?thesis by linarith
qed

lemma DBL_MAX_nonneg: "0 \<le> DBL_MAX"
  by (simp add: DBL_MAX_def)

lemma regionBounds_nonneg: "0 \<le> fst (regionBounds f q)"
  using fold_min_attained[of q "(if responsible f q then 0 else DBL_MAX, 0)" "candidates f q"]
  unfolding regionBounds_def by (auto split: if_splits simp: DBL_MAX_nonneg distance_nonneg)

lemma distance_self: "distance q q = 0"
  by (simp add: distance_eq_0_iff)

lemma regionBounds_min_attained:
  assumes "minX f \<le> maxX f" and "minY f \<le> maxY f"
    and "inRectangle f p0" and "distance p0 q \<le> DBL_MAX"
  shows "\<exists>p. inRectangle f p \<and> distance p q = fst (regionBounds f q)"
proof -
  let ?r = "fst (regionBounds f q)"
  from fold_min_attained[of q "(if responsible f q then 0 else DBL_MAX, 0)" "candidates f q"]
  consider (init) "?r = (if responsible f q then 0 else DBL_MAX)"
    | (cand) c where "c \<in> set (candidates f q)" "?r = distance c q"
    unfolding regionBounds_def by auto
  then show ?thesis
  proof cases
    case init
    show ?thesis
    proof (cases "responsible f q")
      case True
      then have "inRectangle f q" by (auto simp: responsible_def inRectangle_def)
      with init True show ?thesis by (intro exI[of _ q]) (simp add: distance_self)
    next
      case False
      from nearest_candidate[OF assms(3) False] obtain c where
        c: "c \<in> set (candidates f q)" "distance c q \<le> distance p0 q" by blast
      have "?r \<le> distance c q"
        unfolding regionBounds_def by (rule fold_min_le(2)[OF c(1)])
      with init False assms(4) c(2) have "distance c q = ?r" by simp
      moreover have "inRectangle f c"
        by (rule candidates_inRectangle[OF assms(1,2) c(1)])
      ultimately show ?thesis by blast
    qed
  next
    case cand
    with candidates_inRectangle[OF assms(1,2)] show ?thesis by metis
  qed
qed

lemma regionBounds_max_attained:
  assumes "minX f \<le> maxX f" and "minY f \<le> maxY f"
  shows "\<exists>p. inRectangle f p \<and> distance p q = snd (regionBounds f q)"
proof -
  let ?r = "snd (regionBounds f q)"
  from fold_max_attained[of q "(if responsible f q then 0 else DBL_MAX, 0)" "candidates f q"]
  consider (init) "?r = 0" | (cand) c where "c \<in> set (candidates f q)" "?r = distance c q"
    unfolding regionBounds_def by auto
  then show ?thesis
  proof cases
    case init
    have "distance (minX f, minY f) q \<le> ?r"
      unfolding regionBounds_def by (rule fold_max_ge(2)[OF corners_candidates(1)])
    with init distance_nonneg[of "(minX f, minY f)" q] have "distance (minX f, minY f) q = ?r"
      by simp
    moreover have "inRectangle f (minX f, minY f)"
      by (rule candidates_inRectangle[OF assms(1,2) corners_candidates(1)])
    ultimately show ?thesis by blast
  next
    case cand
    with candidates_inRectangle[OF assms(1,2)] show ?thesis by metis
  qed
qed

lemma regionBounds_inside:
  assumes "inRectangle f q"
  shows "fst (regionBounds f q) = 0"
  using regionBounds_lower[OF assms, of q] regionBounds_nonneg[of f q] distance_self[of q]
  by simp


lemma EuclideanDistances_Inr_iff:
  "EuclideanDistances f q = Inr d \<Longrightarrow> d = regionBounds f q"
  by (simp add: EuclideanDistances_eq split: if_splits)

text \<open>
  In the exact arithmetic of the model, a pair that \<open>EuclideanDistances\<close> returns for a
  region with \<open>minX \<le> maxX\<close> and \<open>minY \<le> maxY\<close> bounds the distance from the query
  point to every point of the closed rectangle; the second component is the distance to a
  point of the rectangle, so is the first as soon as some point of the rectangle is within
  the largest double of the query point, and the first component is 0 when the rectangle
  contains the query point.
\<close>

lemma EuclideanDistances_bounds:
  assumes "minX f \<le> maxX f" and "minY f \<le> maxY f" and "EuclideanDistances f q = Inr d"
  shows "\<forall>p. inRectangle f p \<longrightarrow> fst d \<le> distance p q \<and> distance p q \<le> snd d"
    and "\<exists>p. inRectangle f p \<and> distance p q = snd d"
    and "(\<exists>p. inRectangle f p \<and> distance p q \<le> DBL_MAX) \<longrightarrow>
           (\<exists>p. inRectangle f p \<and> distance p q = fst d)"
    and "inRectangle f q \<longrightarrow> fst d = 0"
proof -
  from assms(3) have d: "d = regionBounds f q" by (rule EuclideanDistances_Inr_iff)
  show "\<forall>p. inRectangle f p \<longrightarrow> fst d \<le> distance p q \<and> distance p q \<le> snd d"
    unfolding d using regionBounds_lower regionBounds_upper by blast
  show "\<exists>p. inRectangle f p \<and> distance p q = snd d"
    unfolding d by (rule regionBounds_max_attained[OF assms(1,2)])
  show "(\<exists>p. inRectangle f p \<and> distance p q \<le> DBL_MAX) \<longrightarrow>
          (\<exists>p. inRectangle f p \<and> distance p q = fst d)"
    unfolding d using regionBounds_min_attained[OF assms(1,2)] by blast
  show "inRectangle f q \<longrightarrow> fst d = 0"
    unfolding d using regionBounds_inside by blast
qed

text \<open>
  C3: the region with corners (-3, -4) and (0, 0), as the constructor makes it and as the
  south-west child of the tree of C1 has it, and the query point (0, 0). The rectangle
  contains the query point, at distance 0, and its corner (-3, -4) is the farthest point,
  at distance 5; the function has computed the pair (0, 5) when it reaches its
  assertions, and stops at the first: the minimum 0 is not below
  \<open>query.length() + Point2D(maxX, maxY).length() = 0\<close>.
\<close>

theorem EuclideanDistances_aborts_at_corner:
  "fields (newQuadNode (- 3, - 4) (0, 0) 4 True) = upperRight \<and>
   inRectangle upperRight (0, 0) \<and> distance (0, 0) (0, 0) = 0 \<and>
   inRectangle upperRight (- 3, - 4) \<and> distance (- 3, - 4) (0, 0) = 5 \<and>
   regionBounds upperRight (0, 0) = (0, 5) \<and>
   EuclideanDistances upperRight (0, 0) = Inl AssertionFailed \<and>
   EuclideanDistances (fields (children originTree ! 0)) (0, 0) = Inl AssertionFailed"
proof -
  have "regionBounds upperRight (0, 0) = (0, 5)"
    by (simp add: regionBounds_def candidates_def upperRight_def geometry_defs)
  moreover have "EuclideanDistances upperRight (0, 0) = Inl AssertionFailed"
    by (simp add: upperRight_def geometry_defs)
  moreover have "EuclideanDistances (fields (children originTree ! 0)) (0, 0)
                   = Inl AssertionFailed"
    by (simp add: originTree_def geometry_defs)
  moreover have "distance (- 3, - 4) (0, 0) = 5"
    by (simp add: eval_defs sqrt_25)
  ultimately show ?thesis
    by (simp add: upperRight_def newQuadNode_def inRectangle_def eval_defs)
qed

section \<open>Removal and coarsening\<close>

lemma removeContent_leaf:
  assumes "isLeaf f" and "removeContent (QuadNode f cs) input pos = Inr (b, n')"
  shows "isLeaf (fields n')"
    and "\<not> b \<Longrightarrow> n' = QuadNode f cs"
    and "b \<Longrightarrow> indexOf (content f) input < length (content f) \<and>
               indexOf (content f) input < length (positions f) \<and>
               positions f ! indexOf (content f) input = pos \<and>
               n' = QuadNode (f\<lparr>content := erase (content f) (indexOf (content f) input),
                                 positions := erase (positions f) (indexOf (content f) input)\<rparr>) cs"
  using assms by (auto simp: Let_def distance_eq_0_iff split: if_splits)

lemma removeContent_leaf_mset:
  assumes "isLeaf f" and "removeContent (QuadNode f cs) input pos = Inr (b, n')"
  shows "mset (content (fields n')) + (if b then {#input#} else {#}) = mset (content f)"
    and "mset (positions (fields n')) + (if b then {#pos#} else {#}) = mset (positions f)"
proof -
  show "mset (content (fields n')) + (if b then {#input#} else {#}) = mset (content f)"
  proof (cases b)
    case True
    from removeContent_leaf(3)[OF assms True] show ?thesis
      using True mset_erase[of "indexOf (content f) input" "content f"]
      by (simp add: indexOf_nth)
  next
    case False
    with removeContent_leaf(2)[OF assms] show ?thesis by simp
  qed
  show "mset (positions (fields n')) + (if b then {#pos#} else {#}) = mset (positions f)"
  proof (cases b)
    case True
    from removeContent_leaf(3)[OF assms True] show ?thesis
      using True mset_erase[of "indexOf (content f) input" "positions f"]
      by auto
  next
    case False
    with removeContent_leaf(2)[OF assms] show ?thesis by simp
  qed
qed

lemma removeContentChildren_allLeaves:
  "removeContentChildren cs input pos r a = Inr (r', a', cs') \<Longrightarrow>
     a' = (a \<and> (\<forall>c \<in> set cs. isLeaf (fields c))) \<and> length cs' = length cs \<and> (r \<longrightarrow> r')"
proof (induction cs arbitrary: r a cs')
  case Nil
  then show ?case by simp
next
  case (Cons c cs)
  from Cons.prems obtain b c' cs1 where
    c: "removeContent c input pos = Inr (b, c')" and
    r: "removeContentChildren cs input pos (r \<or> b) (if \<not> isLeaf (fields c) then False else a)
          = Inr (r', a', cs1)" and
    cs': "cs' = c' # cs1"
    by (auto simp: Let_def split: sum.splits if_splits)
  from Cons.IH[OF r] show ?case by (auto simp: cs')
qed

lemma removeContentChildren_leaves:
  assumes "\<forall>c \<in> set cs. isLeaf (fields c)"
    and "removeContentChildren cs input pos r a = Inr (r', a', cs')"
  shows "(\<forall>c \<in> set cs'. isLeaf (fields c)) \<and>
         mset (concat (map (\<lambda>c. content (fields c)) cs')) + (if r' \<and> \<not> r then {#input#} else {#})
           = mset (concat (map (\<lambda>c. content (fields c)) cs)) \<and>
         mset (concat (map (\<lambda>c. positions (fields c)) cs')) + (if r' \<and> \<not> r then {#pos#} else {#})
           = mset (concat (map (\<lambda>c. positions (fields c)) cs))"
  using assms
proof (induction cs arbitrary: r a cs')
  case Nil
  then show ?case by auto
next
  case (Cons c cs)
  from Cons.prems(2) obtain b c' cs1 where
    c: "removeContent c input pos = Inr (b, c')" and
    nb: "\<not> (b \<and> r)" and
    r: "removeContentChildren cs input pos (r \<or> b) (if \<not> isLeaf (fields c) then False else a)
          = Inr (r', a', cs1)" and
    cs': "cs' = c' # cs1"
    by (auto simp: Let_def split: sum.splits if_splits)
  obtain f ccs where cf: "c = QuadNode f ccs" by (cases c)
  have lf: "isLeaf f" using Cons.prems(1) cf by simp
  note m = removeContent_leaf_mset[OF lf c[unfolded cf]] removeContent_leaf(1)[OF lf c[unfolded cf]]
  from Cons.prems(1) have "\<forall>c \<in> set cs. isLeaf (fields c)" by simp
  note ih = Cons.IH[OF this r]
  from removeContentChildren_allLeaves[OF r] have mono: "r \<or> b \<longrightarrow> r'" by simp
  show ?case
  proof (cases b)
    case True
    then have "\<not> r" "r'" using nb mono by auto
    then show ?thesis using ih m True by (simp add: cs' cf)
  next
    case False
    then show ?thesis using ih m by (auto simp: cs' cf)
  qed
qed

lemma removeContent_internal:
  assumes "\<not> isLeaf f" and "removeContent (QuadNode f cs) input pos = Inr (found, n')"
    and "responsible f pos"
  shows "\<exists>allLeaves cs'.
           removeContentChildren cs input pos False True = Inr (found, allLeaves, cs') \<and>
           n' = (let f1 = (if found then f\<lparr>subTreeSize := subTreeSize f - 1\<rparr> else f) in
                 if found \<and> allLeaves \<and> size_node f1 < coarsenLimit
                 then QuadNode (f1\<lparr>content := concat (map (\<lambda>c. content (fields c)) cs'),
                                   positions := concat (map (\<lambda>c. positions (fields c)) cs'),
                                   isLeaf := True\<rparr>) []
                 else QuadNode f1 cs')"
  using assms by (auto simp: Let_def split: if_splits sum.splits prod.splits)


text \<open>
  C5: in \<open>removeContent\<close> on an internal node, the node comes back as a leaf exactly when
  the element was removed, every child was a leaf and the size after the decrement is
  below the coarsening limit 4; it then has no children, and its two buffers are the
  concatenation of the children's buffers as the removal left them, which is what the
  children held before the call less the removed element and its position.
\<close>

theorem removeContent_coarsens:
  assumes "\<not> isLeaf f" and "removeContent (QuadNode f cs) input pos = Inr (found, n')"
  shows "(isLeaf (fields n') \<longleftrightarrow>
            found \<and> (\<forall>c \<in> set cs. isLeaf (fields c)) \<and>
            size_node (f\<lparr>subTreeSize := subTreeSize f - 1\<rparr>) < coarsenLimit) \<and>
         (isLeaf (fields n') \<longrightarrow>
            children n' = [] \<and>
            (\<exists>allLeaves cs'.
               removeContentChildren cs input pos False True = Inr (True, allLeaves, cs') \<and>
               length cs' = length cs \<and>
               content (fields n') = concat (map (\<lambda>c. content (fields c)) cs') \<and>
               positions (fields n') = concat (map (\<lambda>c. positions (fields c)) cs')) \<and>
            mset (content (fields n')) + {#input#} = mset (concat (map (\<lambda>c. content (fields c)) cs)) \<and>
            mset (positions (fields n')) + {#pos#} = mset (concat (map (\<lambda>c. positions (fields c)) cs)))"
proof (cases "responsible f pos")
  case False
  with assms show ?thesis by auto
next
  case True
  from removeContent_internal[OF assms True] obtain allLeaves cs' where
    ch: "removeContentChildren cs input pos False True = Inr (found, allLeaves, cs')" and
    n': "n' = (let f1 = (if found then f\<lparr>subTreeSize := subTreeSize f - 1\<rparr> else f) in
                 if found \<and> allLeaves \<and> size_node f1 < coarsenLimit
                 then QuadNode (f1\<lparr>content := concat (map (\<lambda>c. content (fields c)) cs'),
                                   positions := concat (map (\<lambda>c. positions (fields c)) cs'),
                                   isLeaf := True\<rparr>) []
                 else QuadNode f1 cs')"
    by blast
  from removeContentChildren_allLeaves[OF ch] have
    al: "allLeaves = (\<forall>c \<in> set cs. isLeaf (fields c))" and len: "length cs' = length cs"
    by auto
  show ?thesis
  proof (cases "found \<and> allLeaves \<and> size_node (f\<lparr>subTreeSize := subTreeSize f - 1\<rparr>) < coarsenLimit")
    case False
    then have "\<not> isLeaf (fields n')"
      using n' assms(1) by (auto simp: Let_def)
    with False al show ?thesis by auto
  next
    case c: True
    then have n'': "n' = QuadNode (f\<lparr>subTreeSize := subTreeSize f - 1,
                             content := concat (map (\<lambda>c. content (fields c)) cs'),
                             positions := concat (map (\<lambda>c. positions (fields c)) cs'),
                             isLeaf := True\<rparr>) []"
      using n' by (simp add: Let_def)
    from c al have leaves: "\<forall>c \<in> set cs. isLeaf (fields c)" by simp
    from removeContentChildren_leaves[OF leaves ch] c have
      m: "mset (concat (map (\<lambda>c. content (fields c)) cs')) + {#input#}
            = mset (concat (map (\<lambda>c. content (fields c)) cs))"
         "mset (concat (map (\<lambda>c. positions (fields c)) cs')) + {#pos#}
            = mset (concat (map (\<lambda>c. positions (fields c)) cs))"
      by auto
    have "isLeaf (fields n')" "children n' = []"
         "content (fields n') = concat (map (\<lambda>c. content (fields c)) cs')"
         "positions (fields n') = concat (map (\<lambda>c. positions (fields c)) cs')"
      by (simp_all add: n'')
    with c al ch len m show ?thesis by auto
  qed
qed

lemma removeContent_twoPoints:
  "removeContent twoPoints 1 (3 / 4, 3 / 4) = Inr (True, twoPointsCoarsened)"
  by (simp add: twoPoints_def twoPointsCoarsened_def eval_defs)

theorem removeContent_coarsens_witness:
  "\<not> isLeaf (fields twoPoints) \<and>
   removeContent twoPoints 1 (3 / 4, 3 / 4) = Inr (True, twoPointsCoarsened) \<and>
   isLeaf (fields twoPointsCoarsened) \<and> children twoPointsCoarsened = [] \<and>
   mset (content (fields twoPointsCoarsened)) + {#1#} = mset [0, 1]"
  using removeContent_coarsens[of "fields twoPoints" "children twoPoints" 1 "(3 / 4, 3 / 4)" True
      twoPointsCoarsened]
    removeContent_twoPoints
  by (simp add: twoPoints_def twoPointsCoarsened_def newQuadNode_def)

section \<open>Insertion keeps a tree well formed\<close>

lemma foldRes_addsAll:
  assumes "\<And>m x m'. g m x = Some (Inr m') \<Longrightarrow> adds m (fst x) (snd x) m'"
  shows "foldRes g xs n = Some (Inr n') \<Longrightarrow> addsAll n xs n'"
proof (induction xs arbitrary: n)
  case Nil
  then show ?case by (simp add: all_nil)
next
  case (Cons x xs)
  from Cons.prems obtain n1 where g: "g n x = Some (Inr n1)" and r: "foldRes g xs n1 = Some (Inr n')"
    by (auto split: option.splits sum.splits)
  from assms[OF g] Cons.IH[OF r] show ?case by (rule all_cons)
qed

lemma addContent_adds:
  "addContent k n input pos = Some (Inr n') \<Longrightarrow> adds n input pos n'"
proof (induction k arbitrary: n input pos n')
  case 0
  then show ?case by simp
next
  case (Suc k)
  obtain f cs where n: "n = QuadNode f cs" by (cases n)
  from Suc.prems have pre: "input < sanityNodeLimit" "length (content f) = length (positions f)"
    "responsible f pos"
    by (auto simp: n Let_def split: if_splits)
  show ?case
  proof (cases "isLeaf f")
    case leaf: True
    show ?thesis
    proof (cases "length (content f) + 1 < capacity f")
      case True
      with Suc.prems pre leaf have "n' = QuadNode (f\<lparr>content := content f @ [input],
                                   positions := positions f @ [pos]\<rparr>) cs"
        by (simp add: n Let_def)
      with pre leaf True show ?thesis unfolding n by (simp add: room)
    next
      case False
      with Suc.prems pre leaf obtain n1 n2 where
        s: "split (QuadNode f cs) = Inr n1" and
        l: "foldRes (\<lambda>m x. addContent k m (fst x) (snd x)) (zip (content f) (positions f)) n1
              = Some (Inr n2)" and
        a: "subTreeSize (fields n2) = int (length (content (fields n2)))" and
        r: "addContent k (QuadNode ((fields n2)\<lparr>subTreeSize := int (length (content (fields n2))),
                                content := [], positions := []\<rparr>) (children n2)) input pos
              = Some (Inr n')"
        by (auto simp: n Let_def split: sum.splits option.splits if_splits)
      have all: "addsAll n1 (zip (content f) (positions f)) n2"
        by (rule foldRes_addsAll[OF _ l]) (rule Suc.IH)
      show ?thesis unfolding n
        by (rule full[OF pre leaf False s all a Suc.IH[OF r]])
    qed
  next
    case False
    with Suc.prems pre obtain i c' where
      i: "findResponsibleChild cs pos = Some i" and
      c: "addContent k (cs ! i) input pos = Some (Inr c')" and
      n': "n' = QuadNode (f\<lparr>subTreeSize := subTreeSize f + 1\<rparr>) (cs[i := c'])"
      by (auto simp: n Let_def split: sum.splits option.splits if_splits)
    from pre False i Suc.IH[OF c] show ?thesis unfolding n n' by (rule internal)
  qed
qed


lemma wellFormed_alt:
  "wellFormed n \<longleftrightarrow>
     weakOK n \<and>
     (\<not> isLeaf (fields n) \<longrightarrow>
        content (fields n) = [] \<and> subTreeSize (fields n) = sumSizes (children n))"
  by (cases n) (auto simp: weakOK_def)

lemma frame_updates [simp]:
  "frame (f\<lparr>content := a\<rparr>) = frame f" "frame (f\<lparr>positions := b\<rparr>) = frame f"
  "frame (f\<lparr>subTreeSize := c\<rparr>) = frame f" "frame (f\<lparr>isLeaf := d\<rparr>) = frame f"
  "frame (f\<lparr>ID := e\<rparr>) = frame f"
  by (simp_all add: frame_def)

lemma responsible_frame: "frame f' = frame f \<Longrightarrow> responsible f' p = responsible f p"
  by (simp add: frame_def responsible_def)

lemma childOK_frame: "frame c' = frame c \<Longrightarrow> childOK c' f = childOK c f"
  by (simp add: frame_def childOK_def inside_def)

lemma childOK_frame2: "frame f' = frame f \<Longrightarrow> childOK c f' = childOK c f"
  by (simp add: frame_def childOK_def inside_def)

lemma findResponsibleChild_Some:
  "findResponsibleChild cs pos = Some i \<Longrightarrow> i < length cs \<and> responsible (fields (cs ! i)) pos"
proof (induction cs arbitrary: i)
  case Nil
  then show ?case by simp
next
  case (Cons c cs)
  then show ?case by (auto split: if_splits)
qed

lemma sumSizes_update:
  "i < length cs \<Longrightarrow>
     sumSizes (cs[i := c']) = sumSizes cs - size_node (fields (cs ! i)) + size_node (fields c')"
proof (induction cs arbitrary: i)
  case Nil
  then show ?case by simp
next
  case (Cons c cs)
  then show ?case by (cases i) (simp_all add: sumSizes_def)
qed

lemma wellFormed_new: "wellFormed (newQuadNode lower upper cap st)"
  by (simp add: newQuadNode_def nodeOK_def)

lemma size_new: "size_node (fields (newQuadNode lower upper cap st)) = 0"
  by (simp add: newQuadNode_def size_node_def)

lemma split_Inr:
  assumes "split (QuadNode f cs) = Inr n1"
  shows "\<exists>mx my. minX f < mx \<and> mx < maxX f \<and> minY f < my \<and> my < maxY f \<and> isLeaf f \<and>
           n1 = QuadNode (f\<lparr>isLeaf := False\<rparr>)
                  [newQuadNode (minX f, minY f) (mx, my) (capacity f) (splitTheoretical f),
                   newQuadNode (mx, minY f) (maxX f, my) (capacity f) (splitTheoretical f),
                   newQuadNode (minX f, my) (mx, maxY f) (capacity f) (splitTheoretical f),
                   newQuadNode (mx, my) (maxX f, maxY f) (capacity f) (splitTheoretical f)]"
proof -
  from assms obtain middle where
    m: "minX f < getX middle" "getX middle < maxX f" "minY f < getY middle" "getY middle < maxY f"
       "isLeaf f" and
    n1: "n1 = QuadNode (f\<lparr>isLeaf := False\<rparr>)
                  [newQuadNode (minX f, minY f) middle (capacity f) (splitTheoretical f),
                   newQuadNode (getX middle, minY f) (maxX f, getY middle) (capacity f) (splitTheoretical f),
                   newQuadNode (minX f, getY middle) (getX middle, maxY f) (capacity f) (splitTheoretical f),
                   newQuadNode middle (maxX f, maxY f) (capacity f) (splitTheoretical f)]"
    unfolding split_def Let_def by (auto split: if_splits sum.splits)
  have "middle = (getX middle, getY middle)" by (simp add: getX_def getY_def)
  with m n1 show ?thesis by metis
qed

lemma split_weakOK:
  assumes "split (QuadNode f cs) = Inr n1" and "nodeOK f cs"
  shows "weakOK n1 \<and> \<not> isLeaf (fields n1) \<and> frame (fields n1) = frame f \<and>
         content (fields n1) = content f \<and> positions (fields n1) = positions f \<and>
         subTreeSize (fields n1) = subTreeSize f \<and> sumSizes (children n1) = 0"
proof -
  from split_Inr[OF assms(1)] obtain mx my where
    m: "minX f < mx" "mx < maxX f" "minY f < my" "my < maxY f" and
    n1: "n1 = QuadNode (f\<lparr>isLeaf := False\<rparr>)
                  [newQuadNode (minX f, minY f) (mx, my) (capacity f) (splitTheoretical f),
                   newQuadNode (mx, minY f) (maxX f, my) (capacity f) (splitTheoretical f),
                   newQuadNode (minX f, my) (mx, maxY f) (capacity f) (splitTheoretical f),
                   newQuadNode (mx, my) (maxX f, maxY f) (capacity f) (splitTheoretical f)]"
    by blast
  have kids: "\<forall>c \<in> set (children n1). childOK (fields c) (f\<lparr>isLeaf := False\<rparr>) \<and> wellFormed c"
    using m by (simp add: n1 wellFormed_new) (simp add: newQuadNode_def childOK_def inside_def getX_def getY_def)
  have "nodeOK (f\<lparr>isLeaf := False\<rparr>) (children n1)"
    using assms(2) kids by (simp add: nodeOK_def responsible_def) (simp add: n1)
  then show ?thesis
    using kids by (simp add: weakOK_def n1 sumSizes_def size_new)
qed

lemma addedTo_wellFormed:
  assumes "addedTo c c' 1" and "wellFormed c"
  shows "wellFormed c' \<and> size_node (fields c') = size_node (fields c) + 1 \<and>
         frame (fields c') = frame (fields c)"
proof (cases "isLeaf (fields c)")
  case True
  with assms(1) show ?thesis by (simp add: addedTo_def)
next
  case False
  with assms(2) have c: "content (fields c) = []" "subTreeSize (fields c) = sumSizes (children c)"
    by (simp_all add: wellFormed_alt)
  from assms(1) False have c': "weakOK c'" "\<not> isLeaf (fields c')" "content (fields c') = content (fields c)"
    "subTreeSize (fields c') = subTreeSize (fields c) + 1"
    "sumSizes (children c') = sumSizes (children c) + 1" "frame (fields c') = frame (fields c)"
    by (simp_all add: addedTo_def)
  then have "wellFormed c'" using c by (simp add: wellFormed_alt)
  then show ?thesis using c' c False by (simp add: size_node_def)
qed

lemma adds_invariant:
  "adds n input pos n' \<Longrightarrow> weakOK n \<Longrightarrow> addedTo n n' 1"
  "addsAll n xs n' \<Longrightarrow> weakOK n \<Longrightarrow> \<not> isLeaf (fields n) \<Longrightarrow> addedTo n n' (int (length xs))"
proof (induction rule: adds_addsAll.inducts)
  case (room input f pos cs)
  from room.prems have ok: "nodeOK f cs" by (simp add: weakOK_def)
  let ?f' = "f\<lparr>content := content f @ [input], positions := positions f @ [pos]\<rparr>"
  have "nodeOK ?f' cs"
    using ok room.hyps by (auto simp: nodeOK_def responsible_def childOK_def inside_def)
  then have "wellFormed (QuadNode ?f' cs)"
    using room.prems room.hyps by (simp add: weakOK_def)
  then show ?case
    using room.hyps by (simp add: addedTo_def wellFormed_alt size_node_def)
next
  case (full input f pos cs n1 n2 n')
  from full.prems have ok: "nodeOK f cs" by (simp add: weakOK_def)
  from split_weakOK[OF full.hyps(6) ok] have
    n1: "weakOK n1" "\<not> isLeaf (fields n1)" "frame (fields n1) = frame f"
        "content (fields n1) = content f" "positions (fields n1) = positions f"
        "subTreeSize (fields n1) = subTreeSize f" "sumSizes (children n1) = 0"
    by simp_all
  from full.IH(1)[OF n1(1,2)] n1 have
    n2: "weakOK n2" "\<not> isLeaf (fields n2)" "frame (fields n2) = frame f"
        "content (fields n2) = content f"
        "sumSizes (children n2) = int (length (zip (content f) (positions f)))"
    by (simp_all add: addedTo_def)
  let ?n3 = "QuadNode ((fields n2)\<lparr>subTreeSize := int (length (content (fields n2))),
                                content := [], positions := []\<rparr>) (children n2)"
  have n3: "weakOK ?n3"
    using n2(1) by (simp add: weakOK_def nodeOK_def responsible_def childOK_def inside_def)
  from full.IH(2)[OF n3] n2 have
    n': "weakOK n'" "\<not> isLeaf (fields n')" "frame (fields n') = frame f"
        "content (fields n') = []"
        "subTreeSize (fields n') = int (length (content f)) + 1"
        "sumSizes (children n') = int (length (zip (content f) (positions f))) + 1"
    by (simp_all add: addedTo_def)
  have "wellFormed n'"
    using n' full.hyps(2) by (simp add: wellFormed_alt)
  then show ?case
    using n' full.hyps(4) by (simp add: addedTo_def size_node_def)
next
  case (internal input f pos cs i c')
  from internal.prems have ok: "nodeOK f cs" and kids: "\<forall>c \<in> set cs. wellFormed c"
    by (simp_all add: weakOK_def)
  from findResponsibleChild_Some[OF internal.hyps(5)] have i: "i < length cs" by simp
  then have ci: "cs ! i \<in> set cs" by simp
  with kids have wfc: "wellFormed (cs ! i)" by blast
  then have "weakOK (cs ! i)" by (simp add: wellFormed_alt)
  from addedTo_wellFormed[OF internal.IH[OF this] wfc] have
    c': "wellFormed c'" "size_node (fields c') = size_node (fields (cs ! i)) + 1"
        "frame (fields c') = frame (fields (cs ! i))"
    by simp_all
  let ?f' = "f\<lparr>subTreeSize := subTreeSize f + 1\<rparr>"
  have sub: "set (cs[i := c']) \<subseteq> insert c' (set cs)" by (rule set_update_subset_insert)
  have "childOK (fields c') f"
    using ok ci childOK_frame[OF c'(3)] by (simp add: nodeOK_def)
  then have ck: "\<forall>c \<in> set (cs[i := c']). childOK (fields c) ?f'"
    using ok sub by (auto simp: nodeOK_def childOK_frame2[of ?f' f])
  have "nodeOK ?f' (cs[i := c'])"
    using ok ck internal.hyps(4) by (simp add: nodeOK_def responsible_def)
  moreover have "\<forall>c \<in> set (cs[i := c']). wellFormed c"
    using kids c'(1) sub by auto
  ultimately have "weakOK (QuadNode ?f' (cs[i := c']))"
    by (simp add: weakOK_def)
  moreover have "sumSizes (cs[i := c']) = sumSizes cs + 1"
    using sumSizes_update[OF i, of c'] c'(2) by simp
  ultimately show ?case
    using internal.hyps(4) by (simp add: addedTo_def)
next
  case (all_nil n)
  then show ?case by (simp add: addedTo_def)
next
  case (all_cons n x n1 xs n2)
  from all_cons.IH(1)[OF all_cons.prems(1)] all_cons.prems(2) have
    a: "weakOK n1" "\<not> isLeaf (fields n1)" "frame (fields n1) = frame (fields n)"
       "content (fields n1) = content (fields n)" "positions (fields n1) = positions (fields n)"
       "subTreeSize (fields n1) = subTreeSize (fields n) + 1"
       "sumSizes (children n1) = sumSizes (children n) + 1"
    by (simp_all add: addedTo_def)
  from all_cons.IH(2)[OF a(1,2)] a show ?case
    using all_cons.prems(2) by (simp add: addedTo_def)
qed

lemma addContent_wellFormed:
  assumes "addContent k n input pos = Some (Inr n')" and "wellFormed n"
  shows "wellFormed n' \<and> size_node (fields n') = size_node (fields n) + 1 \<and>
         frame (fields n') = frame (fields n)"
proof -
  from assms(2) have "weakOK n" by (simp add: wellFormed_alt)
  from adds_invariant(1)[OF addContent_adds[OF assms(1)] this] assms(2)
  show ?thesis by (rule addedTo_wellFormed)
qed

section \<open>Removal keeps a tree well formed\<close>

lemma responsible_inside: "inside c f \<Longrightarrow> responsible c p \<Longrightarrow> responsible f p"
  by (auto simp: inside_def responsible_def)

lemma removedFrom_refl: "wellFormed n \<Longrightarrow> removedFrom n n False"
  by (simp add: removedFrom_def)

lemma subset_erase: "set (erase xs i) \<subseteq> set xs"
  by (auto simp: erase_def dest: in_set_takeD in_set_dropD)

lemma length_concat_leaves:
  "\<forall>c \<in> set cs. isLeaf (fields c) \<Longrightarrow>
     int (length (concat (map (\<lambda>c. content (fields c)) cs))) = sumSizes cs"
  by (induction cs) (simp_all add: sumSizes_def size_node_def)


lemma removeContent_outside:
  "\<not> responsible f pos \<Longrightarrow> removeContent (QuadNode f cs) input pos = Inr (False, QuadNode f cs)"
  by simp

lemma removeContentChildren_Cons:
  assumes "removeContentChildren (c # cs) input pos r a = Inr (r', a', cs')"
  shows "\<exists>found c' cs1. removeContent c input pos = Inr (found, c') \<and> \<not> (found \<and> r) \<and>
           removeContentChildren cs input pos (r \<or> found)
             (if \<not> isLeaf (fields c) then False else a) = Inr (r', a', cs1) \<and>
           cs' = c' # cs1"
proof (cases "removeContent c input pos")
  case (Inl e)
  with assms show ?thesis by (simp add: Let_def)
next
  case (Inr x)
  obtain found c' where x: "x = (found, c')" by (cases x)
  show ?thesis
  proof (cases "removeContentChildren cs input pos (r \<or> found)
             (if \<not> isLeaf (fields c) then False else a)")
    case (Inl e)
    with assms Inr x show ?thesis by (simp add: Let_def split: if_splits)
  next
    case r: (Inr y)
    obtain r1 a1 cs1 where y: "y = (r1, a1, cs1)" by (cases y)
    from assms Inr x r y show ?thesis by (simp add: Let_def split: if_splits)
  qed
qed

lemma removeContentChildren_invariant:
  assumes "\<And>c b c'. c \<in> set cs \<Longrightarrow> removeContent c input pos = Inr (b, c') \<Longrightarrow> wellFormed c \<Longrightarrow>
             removedFrom c c' b"
  shows "removeContentChildren cs input pos r a = Inr (r', a', cs') \<Longrightarrow>
         \<forall>c \<in> set cs. wellFormed c \<Longrightarrow>
         list_all2 (\<lambda>c c'. \<exists>b. removedFrom c c' b) cs cs' \<and>
         sumSizes cs' = sumSizes cs - (if r' \<and> \<not> r then 1 else 0) \<and>
         (r' = r \<longrightarrow> cs' = cs)"
  using assms
proof (induction cs arbitrary: r a r' a' cs')
  case Nil
  then show ?case by simp
next
  case (Cons c cs)
  from removeContentChildren_Cons[OF Cons.prems(1)] obtain found c' cs1 where
    c: "removeContent c input pos = Inr (found, c')" and
    nb: "\<not> (found \<and> r)" and
    r: "removeContentChildren cs input pos (r \<or> found)
          (if \<not> isLeaf (fields c) then False else a) = Inr (r', a', cs1)" and
    cs': "cs' = c' # cs1"
    by blast
  from Cons.prems(2) have wc: "wellFormed c" and wcs: "\<forall>c \<in> set cs. wellFormed c" by simp_all
  have rc: "removedFrom c c' found" by (rule Cons.prems(3)[OF _ c wc]) simp
  have "list_all2 (\<lambda>c c'. \<exists>b. removedFrom c c' b) cs cs1 \<and>
        sumSizes cs1 = sumSizes cs - (if r' \<and> \<not> (r \<or> found) then 1 else 0) \<and>
        (r' = (r \<or> found) \<longrightarrow> cs1 = cs)"
    by (rule Cons.IH[OF r wcs]) (rule Cons.prems(3), simp_all)
  then have
    rel: "list_all2 (\<lambda>c c'. \<exists>b. removedFrom c c' b) cs cs1" and
    sz: "sumSizes cs1 = sumSizes cs - (if r' \<and> \<not> (r \<or> found) then 1 else 0)" and
    same: "r' = (r \<or> found) \<longrightarrow> cs1 = cs"
    by simp_all
  from removeContentChildren_allLeaves[OF r] have mono: "r \<or> found \<longrightarrow> r'" by simp
  have s1: "size_node (fields c') = size_node (fields c) - (if found then 1 else 0)"
    and s2: "\<not> found \<longrightarrow> c' = c"
    using rc by (simp_all add: removedFrom_def)
  have "sumSizes cs' = sumSizes (c # cs) - (if r' \<and> \<not> r then 1 else 0)"
    using s1 sz nb mono by (cases found; cases r; cases r') (simp_all add: cs' sumSizes_def)
  moreover have "r' = r \<longrightarrow> cs' = c # cs"
    using s2 same mono nb by (cases found; cases r; cases r') (simp_all add: cs')
  moreover have "list_all2 (\<lambda>c c'. \<exists>b. removedFrom c c' b) (c # cs) cs'"
    using rc rel by (auto simp: cs')
  ultimately show ?case by simp
qed

lemma responsible_updates [simp]:
  "responsible (f\<lparr>content := a\<rparr>) = responsible f"
  "responsible (f\<lparr>positions := b\<rparr>) = responsible f"
  "responsible (f\<lparr>subTreeSize := c\<rparr>) = responsible f"
  "responsible (f\<lparr>isLeaf := d\<rparr>) = responsible f"
  "responsible (f\<lparr>ID := e\<rparr>) = responsible f"
  by (simp_all add: responsible_def fun_eq_iff)

lemma childOK_updates [simp]:
  "childOK c (f\<lparr>content := a\<rparr>) = childOK c f"
  "childOK c (f\<lparr>positions := b\<rparr>) = childOK c f"
  "childOK c (f\<lparr>subTreeSize := s\<rparr>) = childOK c f"
  "childOK c (f\<lparr>isLeaf := d\<rparr>) = childOK c f"
  "childOK c (f\<lparr>ID := e\<rparr>) = childOK c f"
  by (simp_all add: childOK_def inside_def)

lemma removeContent_invariant:
  "removeContent n input pos = Inr (b, n') \<Longrightarrow> wellFormed n \<Longrightarrow> removedFrom n n' b"
proof (induction n arbitrary: b n')
  case (QuadNode f cs)
  note prems = QuadNode.prems
  have IH: "\<And>c b c'. c \<in> set cs \<Longrightarrow> removeContent c input pos = Inr (b, c') \<Longrightarrow> wellFormed c \<Longrightarrow>
             removedFrom c c' b"
    by (rule QuadNode.IH)
  note wf = prems(2)
  then have ok: "nodeOK f cs" and kids: "\<forall>c \<in> set cs. wellFormed c" by simp_all
  show ?case
  proof (cases "responsible f pos")
    case False
    with prems removeContent_outside[OF False, of cs input] show ?thesis
      by (simp add: removedFrom_def del: removeContent.simps)
  next
    case resp: True
    show ?thesis
    proof (cases "isLeaf f")
      case leaf: True
      show ?thesis
      proof (cases b)
        case False
        from removeContent_leaf(2)[OF leaf prems(1) False] wf show ?thesis
          using False by (simp add: removedFrom_def)
      next
        case True
        let ?i = "indexOf (content f) input"
        from removeContent_leaf(3)[OF leaf prems(1) True] have
          i: "?i < length (content f)" "?i < length (positions f)" and
          n': "n' = QuadNode (f\<lparr>content := erase (content f) ?i,
                                 positions := erase (positions f) ?i\<rparr>) cs"
          by simp_all
        have "nodeOK (f\<lparr>content := erase (content f) ?i, positions := erase (positions f) ?i\<rparr>) cs"
          using ok i subset_erase[of "content f" ?i] subset_erase[of "positions f" ?i]
          by (auto simp: nodeOK_def length_erase)
        then show ?thesis
          using kids leaf True i by (simp add: removedFrom_def n' size_node_def length_erase)
      qed
    next
      case internal: False
      with wf have f: "content f = []" "subTreeSize f = sumSizes cs" "length cs = 4"
        by (simp_all add: nodeOK_def)
      from removeContent_internal[OF internal prems(1) resp] obtain allLeaves cs' where
        ch: "removeContentChildren cs input pos False True = Inr (b, allLeaves, cs')" and
        n': "n' = (let f1 = (if b then f\<lparr>subTreeSize := subTreeSize f - 1\<rparr> else f) in
                 if b \<and> allLeaves \<and> size_node f1 < coarsenLimit
                 then QuadNode (f1\<lparr>content := concat (map (\<lambda>c. content (fields c)) cs'),
                                   positions := concat (map (\<lambda>c. positions (fields c)) cs'),
                                   isLeaf := True\<rparr>) []
                 else QuadNode f1 cs')"
        by blast
      from f(3) have ne: "cs \<noteq> []" by auto
      from removeContentChildren_invariant[OF IH ch kids] have
        rel: "list_all2 (\<lambda>c c'. \<exists>b. removedFrom c c' b) cs cs'" and
        sz: "sumSizes cs' = sumSizes cs - (if b then 1 else 0)" and
        same: "\<not> b \<longrightarrow> cs' = cs"
        by auto
      from removeContentChildren_allLeaves[OF ch] have
        al: "allLeaves = (\<forall>c \<in> set cs. isLeaf (fields c))" and len: "length cs' = length cs"
        by auto
      have kids': "\<forall>c' \<in> set cs'. wellFormed c' \<and> childOK (fields c') f"
      proof
        fix c' assume "c' \<in> set cs'"
        then obtain j where j: "j < length cs'" "c' = cs' ! j" by (auto simp: in_set_conv_nth)
        with rel len have "\<exists>b. removedFrom (cs ! j) c' b" by (simp add: list_all2_conv_all_nth)
        then have "wellFormed c'" "frame (fields c') = frame (fields (cs ! j))"
          by (auto simp: removedFrom_def)
        moreover have "childOK (fields (cs ! j)) f" using ok j len by (simp add: nodeOK_def)
        ultimately show "wellFormed c' \<and> childOK (fields c') f"
          using childOK_frame[of "fields c'" "fields (cs ! j)" f] by simp
      qed
      show ?thesis
      proof (cases "b \<and> allLeaves \<and> size_node (f\<lparr>subTreeSize := subTreeSize f - 1\<rparr>) < coarsenLimit")
        case False
        then have n'': "n' = QuadNode (if b then f\<lparr>subTreeSize := subTreeSize f - 1\<rparr> else f) cs'"
          using n' by (auto simp: Let_def)
        have "nodeOK (if b then f\<lparr>subTreeSize := subTreeSize f - 1\<rparr> else f) cs'"
          using ok kids' len internal f(3)
          by (simp add: nodeOK_def)
        moreover have "\<not> b \<longrightarrow> n' = QuadNode f cs"
          using same by (simp add: n'')
        ultimately show ?thesis
          using kids' f sz internal by (cases b) (simp_all add: removedFrom_def n'' size_node_def)
      next
        case c: True
        let ?content = "concat (map (\<lambda>c. content (fields c)) cs')"
        let ?positions = "concat (map (\<lambda>c. positions (fields c)) cs')"
        from c have n'': "n' = QuadNode (f\<lparr>subTreeSize := subTreeSize f - 1, content := ?content,
                                 positions := ?positions, isLeaf := True\<rparr>) []"
          using n' by (simp add: Let_def)
        have leaves': "\<forall>c' \<in> set cs'. isLeaf (fields c')"
        proof
          fix c' assume "c' \<in> set cs'"
          then obtain j where j: "j < length cs'" "c' = cs' ! j" by (auto simp: in_set_conv_nth)
          with rel len have "\<exists>b. removedFrom (cs ! j) c' b" by (simp add: list_all2_conv_all_nth)
          moreover have "isLeaf (fields (cs ! j))" using c al j len by simp
          ultimately show "isLeaf (fields c')" by (auto simp: removedFrom_def)
        qed
        have each: "\<forall>c' \<in> set cs'. length (content (fields c')) = length (positions (fields c')) \<and>
                      (\<forall>p \<in> set (positions (fields c')). responsible f p) \<and>
                      (\<forall>x \<in> set (content (fields c')). x < sanityNodeLimit)"
        proof
          fix c' assume c': "c' \<in> set cs'"
          with kids' have w: "wellFormed c'" and k: "childOK (fields c') f" by auto
          from w have "weakOK c'" by (simp add: wellFormed_alt)
          then have "nodeOK (fields c') (children c')" by (simp add: weakOK_def)
          then have "length (content (fields c')) = length (positions (fields c'))"
            "\<forall>p \<in> set (positions (fields c')). responsible (fields c') p"
            "\<forall>x \<in> set (content (fields c')). x < sanityNodeLimit"
            by (simp_all add: nodeOK_def)
          moreover have "inside (fields c') f" using k by (simp add: childOK_def)
          ultimately show "length (content (fields c')) = length (positions (fields c')) \<and>
                      (\<forall>p \<in> set (positions (fields c')). responsible f p) \<and>
                      (\<forall>x \<in> set (content (fields c')). x < sanityNodeLimit)"
            using responsible_inside[of "fields c'" f] by blast
        qed
        have l: "length ?content = length ?positions"
          using each by (induction cs') simp_all
        have "nodeOK (f\<lparr>subTreeSize := subTreeSize f - 1, content := ?content,
                                 positions := ?positions, isLeaf := True\<rparr>) []"
          using each l by (auto simp: nodeOK_def)
        moreover have "int (length ?content) = subTreeSize f - 1"
          using length_concat_leaves[OF leaves'] sz f c by simp
        ultimately show ?thesis
          using c internal f by (simp add: removedFrom_def n'' size_node_def)
      qed
    qed
  qed
qed

section \<open>Built trees are well formed\<close>

lemma built_wellFormed: "built t \<Longrightarrow> wellFormed t"
proof (induction rule: built.induct)
  case (constructed lower upper cap st)
  show ?case by (rule wellFormed_new)
next
  case (added t fuel input pos t')
  from addContent_wellFormed[OF added.hyps(2) added.IH] show ?case by simp
next
  case (removed t input pos found t')
  from removeContent_invariant[OF removed.hyps(2) removed.IH] show ?case
    by (simp add: removedFrom_def)
qed

lemma wellFormed_nodeOK: "wellFormed n \<Longrightarrow> nodeOK (fields n) (children n)"
  by (cases n) simp

lemma wellFormed_children: "wellFormed (QuadNode f cs) \<Longrightarrow> c \<in> set cs \<Longrightarrow> wellFormed c"
  by simp

lemma storedPairs_responsible:
  "wellFormed n \<Longrightarrow> e \<in> set (storedPairs n) \<Longrightarrow>
     responsible (fields n) (snd e) \<and> fst e < sanityNodeLimit"
proof (induction n arbitrary: e)
  case (QuadNode f cs)
  from QuadNode.prems(1) have ok: "nodeOK f cs" by simp
  show ?case
  proof (cases "isLeaf f")
    case True
    with QuadNode.prems(2) have "e \<in> set (zip (content f) (positions f))" by simp
    then have "(fst e, snd e) \<in> set (zip (content f) (positions f))" by simp
    then have "fst e \<in> set (content f)" "snd e \<in> set (positions f)"
      by (rule set_zip_leftD, rule set_zip_rightD)
    with ok show ?thesis by (simp add: nodeOK_def)
  next
    case False
    with QuadNode.prems(2) obtain c where c: "c \<in> set cs" "e \<in> set (storedPairs c)" by auto
    from QuadNode.prems(1) c(1) have "wellFormed c" by simp
    from QuadNode.IH[OF c(1) this c(2)] have
      r: "responsible (fields c) (snd e)" "fst e < sanityNodeLimit" by simp_all
    from ok c(1) have "inside (fields c) f" by (simp add: nodeOK_def childOK_def)
    from responsible_inside[OF this r(1)] r(2) show ?thesis by simp
  qed
qed








section \<open>Exact range query\<close>

lemma originTree_built_steps:
  "addContent 1 (newQuadNode (- 3, - 4) (3, 4) 2 True) 0 (0, 1) = Some (Inr originLeaf)"
  "addContent 3 originLeaf 1 (- 3, - 4) = Some (Inr originTree)"
  by (simp_all add: originLeaf_def originTree_def eval_defs numeral_3_eq_3)

lemma twoPoints_steps:
  "addContent 1 (newQuadNode (0, 0) (1, 1) 2 True) 0 (1 / 4, 1 / 4) = Some (Inr onePoint)"
  "addContent 3 onePoint 1 (3 / 4, 3 / 4) = Some (Inr twoPoints)"
  by (simp_all add: onePoint_def twoPoints_def eval_defs numeral_3_eq_3)

lemma built_twoPoints: "built twoPoints"
  by (rule added[OF added[OF constructed twoPoints_steps(1)] twoPoints_steps(2)])

text \<open>
  C1: the claim holds for the queries that return, and fails where an assertion of
  \<open>EuclideanDistances\<close> stops the query. The region with corners (-3, -4) and (3, 4),
  capacity 2, takes 0 at (0, 1) and 1 at (-3, -4) and splits at the origin. A query with
  center (0, 0) and radius 6 should return both elements; the south-west child has the
  upper corner (0, 0), so its minimum distance 0 is not below
  \<open>query.length() + Point2D(maxX, maxY).length() = 0\<close>, and the query stops.
\<close>

theorem getElementsInEuclideanCircle_aborts_at_origin:
  "addContent 1 (newQuadNode (- 3, - 4) (3, 4) 2 True) 0 (0, 1) = Some (Inr originLeaf) \<and>
   addContent 3 originLeaf 1 (- 3, - 4) = Some (Inr originTree) \<and>
   bruteForceCircle originTree (0, 0) 6 = [1, 0] \<and>
   getElementsInEuclideanCircle originTree (0, 0) 6 [] = Inl AssertionFailed"
proof -
  have "bruteForceCircle originTree (0, 0) 6 = [1, 0]"
    by (simp add: bruteForceCircle_def originTree_def newQuadNode_def geometry_defs)
  moreover have "getElementsInEuclideanCircle originTree (0, 0) 6 [] = Inl AssertionFailed"
    by (simp add: originTree_def newQuadNode_def outOfReach_def geometry_defs)
  ultimately show ?thesis using originTree_built_steps by simp
qed


section \<open>Removal of absent and of stored elements\<close>

lemma removeContent_leaf_eq:
  "responsible f pos \<Longrightarrow> isLeaf f \<Longrightarrow>
   removeContent (QuadNode f cs) input pos =
     (let i = indexOf (content f) input in
        if i < length (content f) then
          if \<not> i < length (positions f) then Inl OutOfBounds
          else if distance (positions f ! i) pos \<noteq> 0 then Inl AssertionFailed
          else Inr (True, QuadNode (f\<lparr>content := erase (content f) i,
                                        positions := erase (positions f) i\<rparr>) cs)
        else Inr (False, QuadNode f cs))"
  by simp

lemma removeContent_internal_eq:
  "responsible f pos \<Longrightarrow> \<not> isLeaf f \<Longrightarrow> cs \<noteq> [] \<Longrightarrow>
   removeContentChildren cs input pos False True = Inr (removed, allLeaves, cs') \<Longrightarrow>
   removeContent (QuadNode f cs) input pos =
     (let f1 = (if removed then f\<lparr>subTreeSize := subTreeSize f - 1\<rparr> else f) in
      if removed \<and> allLeaves \<and> size_node f1 < coarsenLimit then
        let allContent = concat (map (\<lambda>c. content (fields c)) cs');
            allPositions = concat (map (\<lambda>c. positions (fields c)) cs')
        in if length allContent \<noteq> length allPositions then Inl AssertionFailed
           else Inr (removed, QuadNode (f1\<lparr>content := allContent, positions := allPositions,
                                            isLeaf := True\<rparr>) [])
      else Inr (removed, QuadNode f1 cs'))"
  by simp

lemma removeContentChildren_none:
  "\<forall>c \<in> set cs. removeContent c input pos = Inr (False, c) \<Longrightarrow>
     removeContentChildren cs input pos r a
       = Inr (r, a \<and> (\<forall>c \<in> set cs. isLeaf (fields c)), cs)"
  by (induction cs arbitrary: r a) (auto simp: Let_def)

lemma removeContentChildren_one:
  "j < length cs \<Longrightarrow> removeContent (cs ! j) input pos = Inr (True, c') \<Longrightarrow>
   \<forall>k < length cs. k \<noteq> j \<longrightarrow> removeContent (cs ! k) input pos = Inr (False, cs ! k) \<Longrightarrow>
   removeContentChildren cs input pos False a
     = Inr (True, a \<and> (\<forall>c \<in> set cs. isLeaf (fields c)), cs[j := c'])"
proof (induction cs arbitrary: j a)
  case Nil
  then show ?case by simp
next
  case (Cons c cs)
  show ?case
  proof (cases j)
    case 0
    with Cons.prems have c: "removeContent c input pos = Inr (True, c')" by simp
    have "\<forall>x \<in> set cs. removeContent x input pos = Inr (False, x)"
    proof
      fix x assume "x \<in> set cs"
      then obtain k where k: "k < length cs" "x = cs ! k" by (auto simp: in_set_conv_nth)
      with Cons.prems(3)[rule_format, of "Suc k"] 0 show "removeContent x input pos = Inr (False, x)"
        by simp
    qed
    from removeContentChildren_none[OF this] c 0 show ?thesis
      by (auto simp: Let_def)
  next
    case (Suc j')
    from Cons.prems(3)[rule_format, of 0] Suc have c: "removeContent c input pos = Inr (False, c)"
      by simp
    have "removeContentChildren cs input pos False (if \<not> isLeaf (fields c) then False else a)
            = Inr (True, (if \<not> isLeaf (fields c) then False else a) \<and> (\<forall>c \<in> set cs. isLeaf (fields c)),
                   cs[j' := c'])"
    proof (rule Cons.IH)
      show "j' < length cs" using Cons.prems(1) Suc by simp
      show "removeContent (cs ! j') input pos = Inr (True, c')" using Cons.prems(2) Suc by simp
      show "\<forall>k<length cs. k \<noteq> j' \<longrightarrow> removeContent (cs ! k) input pos = Inr (False, cs ! k)"
      proof (intro allI impI)
        fix k assume "k < length cs" "k \<noteq> j'"
        with Cons.prems(3)[rule_format, of "Suc k"] Suc
        show "removeContent (cs ! k) input pos = Inr (False, cs ! k)" by simp
      qed
    qed
    with c Suc show ?thesis by (auto simp: Let_def)
  qed
qed

lemma storedPairs_leaf_ids:
  "isLeaf f \<Longrightarrow> length (content f) = length (positions f) \<Longrightarrow>
     fst ` set (storedPairs (QuadNode f cs)) = set (content f)"
  by (simp add: map_fst_zip flip: set_map)

lemma removeContent_absent:
  "wellFormed n \<Longrightarrow> input \<notin> fst ` set (storedPairs n) \<Longrightarrow>
     removeContent n input pos = Inr (False, n)"
proof (induction n)
  case (QuadNode f cs)
  from QuadNode.prems(1) have ok: "nodeOK f cs" and kids: "\<forall>c \<in> set cs. wellFormed c" by simp_all
  show ?case
  proof (cases "responsible f pos")
    case False
    then show ?thesis by (rule removeContent_outside)
  next
    case resp: True
    show ?thesis
    proof (cases "isLeaf f")
      case True
      from ok have "length (content f) = length (positions f)" by (simp add: nodeOK_def)
      from storedPairs_leaf_ids[OF True this] QuadNode.prems(2)
      have "input \<notin> set (content f)" by simp
      then have "\<not> indexOf (content f) input < length (content f)"
        by (simp add: indexOf_less_iff)
      then show ?thesis
        by (simp add: removeContent_leaf_eq[OF resp True] Let_def del: removeContent.simps)
    next
      case False
      from ok False have ne: "cs \<noteq> []" by (auto simp: nodeOK_def)
      have "\<forall>c \<in> set cs. removeContent c input pos = Inr (False, c)"
      proof
        fix c assume c: "c \<in> set cs"
        with QuadNode.prems(2) False have "input \<notin> fst ` set (storedPairs c)" by auto
        from QuadNode.IH[OF c _ this] kids c
        show "removeContent c input pos = Inr (False, c)" by simp
      qed
      note th = removeContentChildren_none[OF this, of False True]
      show ?thesis
        by (simp add: removeContent_internal_eq[OF resp False ne th] del: removeContent.simps)
    qed
  qed
qed

lemma indexOf_distinct: "distinct xs \<Longrightarrow> j < length xs \<Longrightarrow> indexOf xs (xs ! j) = j"
proof (induction xs arbitrary: j)
  case Nil
  then show ?case by simp
next
  case (Cons x xs)
  then show ?case by (cases j) auto
qed

lemma zip_erase:
  "length xs = length ys \<Longrightarrow> zip (erase xs j) (erase ys j) = erase (zip xs ys) j"
  by (simp add: erase_def take_zip drop_zip)

lemma zip_concat:
  "\<forall>c \<in> set cs. length (g c) = length (h c) \<Longrightarrow>
     zip (concat (map g cs)) (concat (map h cs)) = concat (map (\<lambda>c. zip (g c) (h c)) cs)"
  by (induction cs) simp_all

lemma mset_concat_update:
  "j < length cs \<Longrightarrow> mset (F c') + {#e#} = mset (F (cs ! j)) \<Longrightarrow>
     mset (concat (map F (cs[j := c']))) + {#e#} = mset (concat (map F cs))"
proof (induction cs arbitrary: j)
  case Nil
  then show ?case by simp
next
  case (Cons c cs)
  show ?case
  proof (cases j)
    case 0
    with Cons.prems show ?thesis by (simp add: ac_simps)
  next
    case (Suc j')
    with Cons.prems have "mset (concat (map F (cs[j' := c']))) + {#e#} = mset (concat (map F cs))"
      by (intro Cons.IH) simp_all
    with Suc show ?thesis by (simp add: ac_simps)
  qed
qed

lemma distinct_concat_nth:
  "distinct (concat xss) \<Longrightarrow> j < length xss \<Longrightarrow>
     distinct (xss ! j) \<and> (\<forall>k < length xss. k \<noteq> j \<longrightarrow> set (xss ! k) \<inter> set (xss ! j) = {})"
proof (induction xss arbitrary: j)
  case Nil
  then show ?case by simp
next
  case (Cons xs xss)
  from Cons.prems(1) have d: "distinct xs" "distinct (concat xss)"
    "set xs \<inter> set (concat xss) = {}" by simp_all
  show ?case
  proof (cases j)
    case 0
    have "\<forall>k < length (xs # xss). k \<noteq> 0 \<longrightarrow> set ((xs # xss) ! k) \<inter> set xs = {}"
    proof (intro allI impI)
      fix k assume k: "k < length (xs # xss)" "k \<noteq> 0"
      then obtain k' where k': "k = Suc k'" "k' < length xss" by (cases k) auto
      then have "xss ! k' \<in> set xss" by simp
      then have "set (xss ! k') \<subseteq> set (concat xss)" by auto
      with d(3) k' show "set ((xs # xss) ! k) \<inter> set xs = {}" by auto
    qed
    with d(1) 0 show ?thesis by simp
  next
    case (Suc j')
    with Cons.prems(2) have j': "j' < length xss" by simp
    from Cons.IH[OF d(2) j'] have
      ih: "distinct (xss ! j')" "\<forall>k < length xss. k \<noteq> j' \<longrightarrow> set (xss ! k) \<inter> set (xss ! j') = {}"
      by simp_all
    have "xss ! j' \<in> set xss" using j' by simp
    then have "set (xss ! j') \<subseteq> set (concat xss)" by auto
    with d(3) have z: "set xs \<inter> set (xss ! j') = {}" by auto
    have "\<forall>k < length (xs # xss). k \<noteq> j \<longrightarrow> set ((xs # xss) ! k) \<inter> set ((xs # xss) ! j) = {}"
    proof (intro allI impI)
      fix k assume k: "k < length (xs # xss)" "k \<noteq> j"
      show "set ((xs # xss) ! k) \<inter> set ((xs # xss) ! j) = {}"
      proof (cases k)
        case 0
        with z Suc show ?thesis by simp
      next
        case (Suc k')
        with k \<open>j = Suc j'\<close> ih(2) show ?thesis by simp
      qed
    qed
    with ih(1) Suc show ?thesis by simp
  qed
qed

lemma storedPairs_coarsened:
  assumes "\<forall>c \<in> set cs. isLeaf (fields c) \<and> length (content (fields c)) = length (positions (fields c))"
  shows "zip (concat (map (\<lambda>c. content (fields c)) cs)) (concat (map (\<lambda>c. positions (fields c)) cs))
           = concat (map storedPairs cs)"
proof -
  have "zip (concat (map (\<lambda>c. content (fields c)) cs)) (concat (map (\<lambda>c. positions (fields c)) cs))
          = concat (map (\<lambda>c. zip (content (fields c)) (positions (fields c))) cs)"
    using assms by (intro zip_concat) simp
  also have "\<dots> = concat (map storedPairs cs)"
  proof -
    have "map (\<lambda>c. zip (content (fields c)) (positions (fields c))) cs = map storedPairs cs"
    proof (rule map_cong[OF refl])
      fix c assume "c \<in> set cs"
      with assms have "isLeaf (fields c)" by simp
      then show "zip (content (fields c)) (positions (fields c)) = storedPairs c"
        by (cases c) simp
    qed
    then show ?thesis by (rule arg_cong)
  qed
  finally show ?thesis .
qed

lemma length_concat_eq:
  "\<forall>c \<in> set cs. length (g c) = length (h c) \<Longrightarrow>
     length (concat (map g cs)) = length (concat (map h cs))"
  by (induction cs) simp_all

lemma removeContent_present:
  "wellFormed n \<Longrightarrow> (input, pos) \<in> set (storedPairs n) \<Longrightarrow> distinct (map fst (storedPairs n)) \<Longrightarrow>
     \<exists>n'. removeContent n input pos = Inr (True, n') \<and>
          mset (storedPairs n') + {#(input, pos)#} = mset (storedPairs n)"
proof (induction n)
  case (QuadNode f cs)
  note wf = QuadNode.prems(1)
  from wf have ok: "nodeOK f cs" and kids: "\<forall>c \<in> set cs. wellFormed c" by simp_all
  from storedPairs_responsible[OF wf QuadNode.prems(2)] have resp: "responsible f pos" by simp
  show ?case
  proof (cases "isLeaf f")
    case leaf: True
    from ok have len: "length (content f) = length (positions f)" by (simp add: nodeOK_def)
    from QuadNode.prems(2) leaf obtain j where
      j: "j < length (zip (content f) (positions f))" "zip (content f) (positions f) ! j = (input, pos)"
      by (auto simp: in_set_conv_nth)
    with len have j': "j < length (content f)" "j < length (positions f)"
      "content f ! j = input" "positions f ! j = pos"
      by simp_all
    from QuadNode.prems(3) leaf len have "distinct (content f)" by (simp add: map_fst_zip)
    from indexOf_distinct[OF this j'(1)] j'(3) have i: "indexOf (content f) input = j" by simp
    let ?n' = "QuadNode (f\<lparr>content := erase (content f) j, positions := erase (positions f) j\<rparr>) cs"
    have "removeContent (QuadNode f cs) input pos = Inr (True, ?n')"
      using i j' by (simp add: removeContent_leaf_eq[OF resp leaf] Let_def distance_self
          del: removeContent.simps)
    moreover have "mset (storedPairs ?n') + {#(input, pos)#} = mset (storedPairs (QuadNode f cs))"
      using leaf mset_erase[OF j(1)] j(2) by (simp add: zip_erase[OF len])
    ultimately show ?thesis by blast
  next
    case internal: False
    from ok internal have l4: "length cs = 4" by (simp add: nodeOK_def)
    then have ne: "cs \<noteq> []" by auto
    let ?e = "(input, pos)"
    from QuadNode.prems(2) internal obtain c where "c \<in> set cs" "?e \<in> set (storedPairs c)" by auto
    then obtain j where j: "j < length cs" "?e \<in> set (storedPairs (cs ! j))"
      by (auto simp: in_set_conv_nth)
    let ?xss = "map (\<lambda>c. map fst (storedPairs c)) cs"
    from QuadNode.prems(3) internal have "distinct (concat ?xss)"
      by (simp add: map_concat o_def)
    from distinct_concat_nth[OF this, of j] j(1) have
      dj: "distinct (map fst (storedPairs (cs ! j)))" and
      dk: "\<forall>k < length cs. k \<noteq> j \<longrightarrow>
             set (map fst (storedPairs (cs ! k))) \<inter> set (map fst (storedPairs (cs ! j))) = {}"
      by simp_all
    from j(1) have cj: "cs ! j \<in> set cs" by simp
    with kids have wj: "wellFormed (cs ! j)" by blast
    from QuadNode.IH[OF cj wj j(2) dj] obtain c' where
      c': "removeContent (cs ! j) input pos = Inr (True, c')"
          "mset (storedPairs c') + {#?e#} = mset (storedPairs (cs ! j))"
      by blast
    have others: "\<forall>k < length cs. k \<noteq> j \<longrightarrow> removeContent (cs ! k) input pos = Inr (False, cs ! k)"
    proof (intro allI impI)
      fix k assume k: "k < length cs" "k \<noteq> j"
      have "input \<in> set (map fst (storedPairs (cs ! j)))"
        using j(2) by (force simp: image_iff)
      with dk k have "input \<notin> fst ` set (storedPairs (cs ! k))" by auto
      moreover have "wellFormed (cs ! k)" using kids k(1) by simp
      ultimately show "removeContent (cs ! k) input pos = Inr (False, cs ! k)"
        by (rule removeContent_absent[rotated])
    qed
    let ?cs' = "cs[j := c']"
    let ?al = "True \<and> (\<forall>c \<in> set cs. isLeaf (fields c))"
    note loop = removeContentChildren_one[OF j(1) c'(1) others, of True]
    note eq = removeContent_internal_eq[OF resp internal ne loop]
    from removeContent_invariant[OF c'(1) wj] have
      rc: "wellFormed c'" "isLeaf (fields (cs ! j)) \<longrightarrow> isLeaf (fields c')"
      by (simp_all add: removedFrom_def)
    have sub: "set ?cs' \<subseteq> insert c' (set cs)" by (rule set_update_subset_insert)
    have pairs: "mset (concat (map storedPairs ?cs')) + {#?e#} = mset (concat (map storedPairs cs))"
      by (rule mset_concat_update[OF j(1) c'(2)])
    let ?f1 = "f\<lparr>subTreeSize := subTreeSize f - 1\<rparr>"
    show ?thesis
    proof (cases "?al \<and> size_node ?f1 < coarsenLimit")
      case False
      then have "removeContent (QuadNode f cs) input pos = Inr (True, QuadNode ?f1 ?cs')"
        using eq by (auto simp: Let_def simp del: removeContent.simps)
      moreover have "mset (storedPairs (QuadNode ?f1 ?cs')) + {#?e#} = mset (storedPairs (QuadNode f cs))"
        using pairs internal by simp
      ultimately show ?thesis by blast
    next
      case True
      have each: "\<forall>c \<in> set ?cs'. isLeaf (fields c) \<and>
                    length (content (fields c)) = length (positions (fields c))"
      proof
        fix c assume "c \<in> set ?cs'"
        with sub have "c = c' \<or> c \<in> set cs" by auto
        then have "isLeaf (fields c)" using True rc(2) cj by auto
        moreover have "wellFormed c" using \<open>c = c' \<or> c \<in> set cs\<close> rc(1) kids by auto
        then have "length (content (fields c)) = length (positions (fields c))"
          using wellFormed_nodeOK[of c] by (simp add: nodeOK_def)
        ultimately show "isLeaf (fields c) \<and>
                    length (content (fields c)) = length (positions (fields c))" by simp
      qed
      let ?content = "concat (map (\<lambda>c. content (fields c)) ?cs')"
      let ?positions = "concat (map (\<lambda>c. positions (fields c)) ?cs')"
      let ?n' = "QuadNode (?f1\<lparr>content := ?content, positions := ?positions, isLeaf := True\<rparr>) []"
      have "length ?content = length ?positions"
        using each by (intro length_concat_eq) simp
      with True have "removeContent (QuadNode f cs) input pos = Inr (True, ?n')"
        using eq by (simp add: Let_def del: removeContent.simps)
      moreover have "storedPairs ?n' = concat (map storedPairs ?cs')"
        using storedPairs_coarsened[OF each] by simp
      then have "mset (storedPairs ?n') + {#?e#} = mset (storedPairs (QuadNode f cs))"
        using pairs internal by simp
      ultimately show ?thesis by blast
    qed
  qed
qed

text \<open>
  C6: on a well-formed tree (every built tree is one), \<open>removeContent\<close> with a position
  outside the region of the node, or with an identifier that is not stored, returns false
  and the tree as it was; with a stored pair of a tree whose identifiers are distinct it
  returns true, the stored pairs are the former ones less that pair, and their number and
  \<open>size()\<close> are smaller by one.
\<close>

theorem removeContent_found_or_unchanged:
  assumes "wellFormed t"
  shows "(\<not> responsible (fields t) pos \<or> input \<notin> fst ` set (storedPairs t) \<longrightarrow>
            removeContent t input pos = Inr (False, t)) \<and>
         ((input, pos) \<in> set (storedPairs t) \<and> distinct (map fst (storedPairs t)) \<longrightarrow>
            (\<exists>t'. removeContent t input pos = Inr (True, t') \<and>
                  length (storedPairs t') + 1 = length (storedPairs t) \<and>
                  size_node (fields t') = size_node (fields t) - 1 \<and>
                  mset (storedPairs t') + {#(input, pos)#} = mset (storedPairs t)))"
proof (intro conjI impI)
  assume a: "\<not> responsible (fields t) pos \<or> input \<notin> fst ` set (storedPairs t)"
  show "removeContent t input pos = Inr (False, t)"
  proof (cases "responsible (fields t) pos")
    case True
    with a have "input \<notin> fst ` set (storedPairs t)" by simp
    from removeContent_absent[OF assms this] show ?thesis .
  next
    case False
    then show ?thesis using removeContent_outside[of "fields t" pos "children t" input] by simp
  qed
next
  assume "(input, pos) \<in> set (storedPairs t) \<and> distinct (map fst (storedPairs t))"
  with removeContent_present[OF assms, of input pos] obtain t' where
    t': "removeContent t input pos = Inr (True, t')"
        "mset (storedPairs t') + {#(input, pos)#} = mset (storedPairs t)"
    by blast
  from removeContent_invariant[OF t'(1) assms] have
    s: "size_node (fields t') = size_node (fields t) - 1" by (simp add: removedFrom_def)
  from t'(2) have "size (mset (storedPairs t') + {#(input, pos)#}) = size (mset (storedPairs t))"
    by simp
  then have "length (storedPairs t') + 1 = length (storedPairs t)" by simp
  with t' s show "\<exists>t'. removeContent t input pos = Inr (True, t') \<and>
                  length (storedPairs t') + 1 = length (storedPairs t) \<and>
                  size_node (fields t') = size_node (fields t) - 1 \<and>
                  mset (storedPairs t') + {#(input, pos)#} = mset (storedPairs t)"
    by blast
qed

theorem removeContent_found_or_unchanged_witness:
  "wellFormed twoPoints \<and>
   removeContent twoPoints 5 (1 / 4, 1 / 4) = Inr (False, twoPoints) \<and>
   removeContent twoPoints 1 (5, 5) = Inr (False, twoPoints) \<and>
   removeContent twoPoints 1 (3 / 4, 3 / 4) = Inr (True, twoPointsCoarsened) \<and>
   length (storedPairs twoPointsCoarsened) + 1 = length (storedPairs twoPoints) \<and>
   size_node (fields twoPointsCoarsened) = size_node (fields twoPoints) - 1"
proof -
  have w: "wellFormed twoPoints" by (rule built_wellFormed[OF built_twoPoints])
  have s: "storedPairs twoPoints = [(0, (1 / 4, 1 / 4)), (1, (3 / 4, 3 / 4))]"
    by (simp add: twoPoints_def newQuadNode_def)
  have a: "input \<notin> fst ` set (storedPairs twoPoints) \<Longrightarrow>
           removeContent twoPoints input pos = Inr (False, twoPoints)" for input pos
    using removeContent_found_or_unchanged[OF w, of pos input] by blast
  have b: "\<not> responsible (fields twoPoints) pos \<Longrightarrow>
           removeContent twoPoints input pos = Inr (False, twoPoints)" for input pos
    using removeContent_found_or_unchanged[OF w, of pos input] by blast
  have c: "\<exists>t'. removeContent twoPoints 1 (3 / 4, 3 / 4) = Inr (True, t') \<and>
                  length (storedPairs t') + 1 = length (storedPairs twoPoints) \<and>
                  size_node (fields t') = size_node (fields twoPoints) - 1"
    using removeContent_found_or_unchanged[OF w, of "(3 / 4, 3 / 4)" 1] s by auto
  have "removeContent twoPoints 5 (1 / 4, 1 / 4) = Inr (False, twoPoints)"
    by (rule a) (simp add: s)
  moreover have "removeContent twoPoints 1 (5, 5) = Inr (False, twoPoints)"
    by (rule b) (simp add: twoPoints_def responsible_def getX_def getY_def)
  ultimately show ?thesis
    using w c removeContent_twoPoints by auto
qed

section \<open>The bound of a leaf buffer\<close>

lemma removeContentChildren_pointwise:
  "removeContentChildren cs input pos r a = Inr (r', a', cs') \<Longrightarrow>
     list_all2 (\<lambda>c c'. \<exists>b. removeContent c input pos = Inr (b, c')) cs cs'"
proof (induction cs arbitrary: r a cs')
  case Nil
  then show ?case by simp
next
  case (Cons c cs)
  from removeContentChildren_Cons[OF Cons.prems] obtain found c' cs1 where
    c: "removeContent c input pos = Inr (found, c')" and
    r: "removeContentChildren cs input pos (r \<or> found)
          (if \<not> isLeaf (fields c) then False else a) = Inr (r', a', cs1)" and
    cs': "cs' = c' # cs1"
    by blast
  from Cons.IH[OF r] c show ?case by (auto simp: cs')
qed

lemma adds_internal:
  "adds n input pos n' \<Longrightarrow> \<not> isLeaf (fields n) \<Longrightarrow>
     \<not> isLeaf (fields n') \<and> content (fields n') = content (fields n)"
  "addsAll n xs n' \<Longrightarrow> \<not> isLeaf (fields n) \<Longrightarrow>
     \<not> isLeaf (fields n') \<and> content (fields n') = content (fields n)"
  by (induction rule: adds_addsAll.inducts) simp_all








text \<open>
  A leaf made by coarsening keeps the element count of the internal node in
  \<open>subTreeSize\<close>. When such a leaf is full and splits, the reinsertion of its buffer adds to
  that count, and the check \<open>subTreeSize == content.size()\<close> after the reinsertion fails:
  the insertion places nothing.
\<close>

lemma resplit_after_coarsening:
  "addContent 3 twoPointsCoarsened 1 (3 / 4, 3 / 4) = Some (Inl AssertionFailed)"
  by (simp add: twoPointsCoarsened_def eval_defs numeral_3_eq_3)

section \<open>Half-open regions\<close>



section \<open>Probabilistic query: the early returns and the choice of the branch\<close>

lemma trunc_less_iff: "trunc x < 4 \<longleftrightarrow> x < 4"
  by (auto simp: trunc_def floor_less_iff ceiling_less_iff)

lemma selectDirectly_iff:
  "selectDirectly probUB ownsize \<longleftrightarrow> probUB * real_of_int ownsize < 4 \<or> probUB < 0"
  by (simp add: selectDirectly_def Let_def trunc_less_iff)

lemma roundToEven_le: "real_of_int (roundToEven y) \<le> y + 1 / 2"
  unfolding roundToEven_def Let_def by (auto simp: not_less) linarith+

lemma roundToEven_of_int: "roundToEven (real_of_int n) = n"
  by (simp add: roundToEven_def)

lemma roundToEven_down:
  assumes "real_of_int n \<le> y" "y < real_of_int n + 1 / 2"
  shows "roundToEven y = n"
proof -
  have "\<lfloor>y\<rfloor> = n" using assms by (intro floor_unique) simp_all
  with assms show ?thesis by (simp add: roundToEven_def Let_def)
qed

lemma roundToEven_up_odd:
  assumes "real_of_int n + 1 / 2 \<le> y" "y < real_of_int n + 1" "odd n"
  shows "roundToEven y = n + 1"
proof -
  have "\<lfloor>y\<rfloor> = n" using assms by (intro floor_unique) simp_all
  with assms show ?thesis by (auto simp: roundToEven_def Let_def)
qed

lemma ulpExponent_half_one:
  assumes "1 / 2 \<le> x" "x < 1"
  shows "ulpExponent x = - 53"
proof -
  have "\<lfloor>log 2 x\<rfloor> = - 1"
  proof (rule floor_unique)
    have "log 2 (1 / 2) \<le> log 2 x" using assms by (intro log_mono) simp_all
    moreover have "log 2 (1 / 2) = - 1" by (simp add: log_divide)
    ultimately show "real_of_int (- 1) \<le> log 2 x" by simp
    have "log 2 x < 0" using assms by simp
    then show "log 2 x < real_of_int (- 1) + 1" by simp
  qed
  with assms show ?thesis by (simp add: ulpExponent_def)
qed

lemma roundDouble_half_one:
  assumes "1 / 2 \<le> x" "x < 1"
  shows "roundDouble x = real_of_int (roundToEven (x * 2 ^ 53)) / 2 ^ 53"
proof -
  have p: "(2::real) powr (- 53) = 1 / 2 ^ 53"
    by (simp add: powr_minus powr_numeral inverse_eq_divide del: powr_minus_divide)
  have "x \<noteq> 0" using assms(1) by simp
  then show ?thesis
    by (simp add: roundDouble_def ulpExponent_half_one[OF assms] p)
qed

text \<open>The numbers from \<open>1 - 2^-54\<close> up to 1 round to 1; the smaller ones round below 1.\<close>

lemma roundDouble_near_one:
  assumes "1 - 1 / 2 ^ 54 \<le> x" "x < 1"
  shows "roundDouble x = 1"
proof -
  have h: "1 / 2 \<le> x" using assms(1) by simp
  define m :: int where "m = 2 ^ 53 - 1"
  have m: "real_of_int m = 2 ^ 53 - 1" "odd m" by (simp_all add: m_def)
  have "real_of_int m + 1 / 2 \<le> x * 2 ^ 53" using assms(1) by (simp add: m field_simps)
  moreover have "x * 2 ^ 53 < real_of_int m + 1" using assms(2) by (simp add: m)
  ultimately have "roundToEven (x * 2 ^ 53) = m + 1" using m(2) by (rule roundToEven_up_odd)
  then have "real_of_int (roundToEven (x * 2 ^ 53)) = 2 ^ 53" by (simp add: m)
  then show ?thesis by (simp add: roundDouble_half_one[OF h assms(2)])
qed

lemma roundDouble_below_one:
  assumes "1 / 2 \<le> x" "x < 1 - 1 / 2 ^ 54"
  shows "roundDouble x < 1"
proof -
  have x1: "x < 1" using assms(2) by (simp add: field_simps)
  define m :: int where "m = 2 ^ 53 - 1"
  have m: "real_of_int m = 2 ^ 53 - 1" by (simp add: m_def)
  have y2: "x * 2 ^ 53 < real_of_int m + 1 / 2" using assms(2) by (simp add: m field_simps)
  have "real_of_int (roundToEven (x * 2 ^ 53)) \<le> real_of_int m"
  proof (cases "x * 2 ^ 53 < real_of_int m")
    case True
    have "real_of_int (roundToEven (x * 2 ^ 53)) < real_of_int m + 1 / 2"
      using roundToEven_le[of "x * 2 ^ 53"] True by linarith
    then have "roundToEven (x * 2 ^ 53) < m + 1" by linarith
    then show ?thesis by simp
  next
    case False
    then have "roundToEven (x * 2 ^ 53) = m"
      using y2 by (intro roundToEven_down) simp_all
    then show ?thesis by simp
  qed
  then have "real_of_int (roundToEven (x * 2 ^ 53)) < 2 ^ 53" by (simp add: m)
  then show ?thesis by (simp add: roundDouble_half_one[OF assms(1) x1])
qed

lemma roundDouble_small:
  assumes "0 < x" "x < 1 / 2"
  shows "roundDouble x < 1"
proof -
  let ?e = "ulpExponent x"
  let ?u = "2 powr real_of_int ?e"
  have u0: "0 < ?u" by simp
  have u: "?u \<le> 1 / 4"
  proof -
    have "log 2 x < log 2 (1 / 2)" using assms by (intro log_less) simp_all
    then have "log 2 x < - 1" by (simp add: log_divide)
    then have "\<lfloor>log 2 x\<rfloor> \<le> - 1" by linarith
    then have "max \<lfloor>log 2 x\<rfloor> (- 1022) - 52 \<le> - 2" by linarith
    then have "?e \<le> - 2" using assms by (simp only: ulpExponent_def abs_of_pos)
    then have "?u \<le> 2 powr real_of_int (- 2)" by (intro powr_mono) simp_all
    also have "\<dots> = 1 / 4"
      by (simp add: powr_minus powr_numeral inverse_eq_divide del: powr_minus_divide)
    finally show ?thesis .
  qed
  have "real_of_int (roundToEven (x / ?u)) * ?u \<le> (x / ?u + 1 / 2) * ?u"
    using roundToEven_le[of "x / ?u"] u0 by (intro mult_right_mono) simp_all
  also have "\<dots> = x + ?u / 2" using u0 by (simp add: field_simps)
  also have "\<dots> < 1" using assms(2) u by simp
  finally show ?thesis using assms(1) by (simp add: roundDouble_def)
qed

lemma roundDouble_one: "roundDouble 1 = 1"
proof -
  have p: "(2::real) powr (- 52) = 1 / 2 ^ 52"
    by (simp add: powr_minus powr_numeral inverse_eq_divide del: powr_minus_divide)
  have "roundToEven (2 ^ 52) = 2 ^ 52"
    using roundToEven_of_int[of "2 ^ 52"] by simp
  then show ?thesis by (simp add: roundDouble_def ulpExponent_def p)
qed

lemma roundDouble_three_quarters: "roundDouble (3 / 4) = 3 / 4"
proof -
  have "roundToEven (real_of_int (3 * 2 ^ 51)) = 3 * 2 ^ 51" by (rule roundToEven_of_int)
  moreover have "(3 / 4 :: real) * 2 ^ 53 = real_of_int (3 * 2 ^ 51)" by simp
  ultimately have "roundToEven (3 / 4 * 2 ^ 53) = 3 * 2 ^ 51" by simp
  then show ?thesis using roundDouble_half_one[of "3 / 4"] by simp
qed

lemma roundDouble_one_minus_iff:
  assumes "0 \<le> p" "p \<le> 1"
  shows "roundDouble (1 - p) = 1 \<longleftrightarrow> p \<le> 1 / 2 ^ 54"
proof (cases "p \<le> 1 / 2 ^ 54")
  case True
  show ?thesis
  proof (cases "p = 0")
    case True
    then show ?thesis by (simp add: roundDouble_one)
  next
    case False
    with assms True have "roundDouble (1 - p) = 1"
      by (intro roundDouble_near_one) simp_all
    with True show ?thesis by simp
  qed
next
  case False
  have "roundDouble (1 - p) \<noteq> 1"
  proof (cases "p = 1")
    case True
    then show ?thesis by (simp add: roundDouble_def)
  next
    case p1: False
    show ?thesis
    proof (cases "1 / 2 \<le> 1 - p")
      case True
      with False have "roundDouble (1 - p) < 1" by (intro roundDouble_below_one) simp_all
      then show ?thesis by simp
    next
      case h: False
      with assms p1 have "roundDouble (1 - p) < 1" by (intro roundDouble_small) simp_all
      then show ?thesis by simp
    qed
  qed
  with False show ?thesis by simp
qed

text \<open>
  The test \<open>probdenom == 0\<close>: for a probability, \<open>std::log(1-probUB)\<close> is 0 exactly
  for the bounds up to \<open>2^-54\<close>, which \<open>1 - probUB\<close> rounds away.
\<close>

lemma probdenom_zero_iff:
  assumes "0 \<le> p" "p \<le> 1"
  shows "std_log (roundDouble (1 - p)) = Finite 0 \<longleftrightarrow> p \<le> 1 / 2 ^ 54"
proof -
  have "std_log x = Finite 0 \<longleftrightarrow> x = 1" for x
    by (auto simp: std_log_def)
  then show ?thesis using roundDouble_one_minus_iff[OF assms] by simp
qed

lemma std_log_small:
  "1 / 2 ^ 54 < p \<Longrightarrow> p \<le> 1 / 2 \<Longrightarrow> std_log (roundDouble (1 - p)) \<noteq> Finite 0"
  using probdenom_zero_iff[of p] by simp

text \<open>
  An internal node whose upper bound is below 0.001 and not so small that
  \<open>1 - probUB\<close> rounds to 1, with an expected yield of 4 or more, recurses into its
  children.
\<close>

lemma recurse_when_small:
  assumes "\<not> isLeaf f" and "EuclideanDistances f q = Inr d"
    and "prob (snd d) \<le> prob (fst d)" and "1 / 2 ^ 54 < prob (fst d)"
    and "prob (fst d) < 1 / 1000"
    and "4 \<le> prob (fst d) * real_of_int (subTreeSize f)"
  shows "getElementsProbabilistically rnd (QuadNode f cs) q prob (c, result) =
           getElementsProbabilisticallyChildren rnd cs q prob (0, c, result)"
proof -
  let ?p = "prob (fst d)"
  have pos: "0 < ?p" using assms(4) by (rule less_trans[rotated]) simp
  have p: "\<not> ?p > 0.5" "?p \<noteq> 0" "std_log (roundDouble (1 - ?p)) \<noteq> Finite 0"
    "prob (snd d) \<noteq> 1"
    using assms pos std_log_small[of ?p] by auto
  have sel: "\<not> selectDirectly ?p (size_node f)"
    using assms by (simp add: selectDirectly_iff size_node_def)
  show ?thesis
    using assms(1-3) p sel
    by (auto simp: Let_def split: sum.splits prod.splits)
qed

text \<open>
  C2: the test of the code is \<open>expectedNeighbours < 4 || probUB < 1/1000\<close> with an integer
  quotient, which is 0. With an upper bound of 1/2000 and 10000 elements below the node,
  the bound is below 0.001 and the test fails all the same: the node recurses.
\<close>

theorem selectDirectly_small_probability:
  "\<not> selectDirectly (1 / 2000) 10000 \<and> (1 / 2000 :: real) < 1 / 1000"
  by (simp add: selectDirectly_iff)

text \<open>
  C7: when the distance bounds are computed and the lower probability bound does not
  exceed the upper one, an upper bound that is 0 after clamping, or whose
  \<open>log(1 - probUB)\<close> is 0, makes \<open>getElementsProbabilistically\<close> return 0 candidates,
  with the result vector and the random source as they were; no error is raised.
\<close>

theorem getElementsProbabilistically_degenerate:
  assumes "EuclideanDistances f q = Inr d" and "prob (snd d) \<le> prob (fst d)"
    and "probUB = (if prob (fst d) > 0.5 then 1 else prob (fst d))"
    and "probUB = 0 \<or> std_log (roundDouble (1 - probUB)) = Finite 0"
  shows "getElementsProbabilistically rnd (QuadNode f cs) q prob (c, result) = Inr (0, c, result)"
  using assms by (auto simp: Let_def)

lemma EuclideanDistances_lowerLeftStored:
  "EuclideanDistances lowerLeftStored (0, 0) = Inr (0, 5)"
  by (simp add: EuclideanDistances_def lowerLeftStored_def updateMinMax_def length_point_def
      eval_defs sqrt_9 sqrt_16 sqrt_25)

lemma lowerLeftStored_built:
  "addContent 1 (newQuadNode (0, 0) (3, 4) 4 True) 7 (3 / 2, 2)
     = Some (Inr (QuadNode lowerLeftStored []))"
  by (simp add: lowerLeftStored_def eval_defs)

text \<open>
  On the same leaf a bound of 1/4 is not degenerate: the query draws a random number,
  and the jump it makes leaves the buffer.
\<close>

lemma getElementsProbabilistically_draws:
  "getElementsProbabilistically (\<lambda>i. 3 / 4) (QuadNode lowerLeftStored []) (0, 0) (\<lambda>d. 1 / 4)
     (0, []) = Inr (0, 1, [])"
proof -
  have l: "ln (3 / 4 :: real) \<noteq> 0" by simp
  have j: "jump (3 / 4) (Finite (ln (3 / 4))) 0 (2 ^ 31) = Inr 1"
    using l by (simp add: jump_def std_log_def trunc_def)
  have leaf: "isLeaf lowerLeftStored" by (simp add: lowerLeftStored_def)
  have "leafLoop (\<lambda>i. 3 / 4) lowerLeftStored (0, 0) (\<lambda>d. 1 / 4) (0, 5) (1 / 4)
          (Finite (ln (3 / 4))) 0 (0, 0, []) = Inr (0, 1, [])"
    using j by (subst leafLoop.simps) (simp add: lowerLeftStored_def)
  then show ?thesis
    using EuclideanDistances_lowerLeftStored leaf
    by (simp add: roundDouble_three_quarters std_log_def Let_def)
qed

theorem getElementsProbabilistically_degenerate_witness:
  "addContent 1 (newQuadNode (0, 0) (3, 4) 4 True) 7 (3 / 2, 2)
     = Some (Inr (QuadNode lowerLeftStored [])) \<and>
   EuclideanDistances lowerLeftStored (0, 0) = Inr (0, 5) \<and>
   getElementsProbabilistically (\<lambda>i. 3 / 4) (QuadNode lowerLeftStored []) (0, 0) (\<lambda>d. 0) (0, [])
     = Inr (0, 0, []) \<and>
   (1 / 2 ^ 54 :: real) \<noteq> 0 \<and> std_log (roundDouble (1 - 1 / 2 ^ 54)) = Finite 0 \<and>
   getElementsProbabilistically (\<lambda>i. 3 / 4) (QuadNode lowerLeftStored []) (0, 0)
     (\<lambda>d. 1 / 2 ^ 54) (0, []) = Inr (0, 0, []) \<and>
   getElementsProbabilistically (\<lambda>i. 3 / 4) (QuadNode lowerLeftStored []) (0, 0) (\<lambda>d. 1 / 4)
     (0, []) = Inr (0, 1, [])"
proof -
  have z: "std_log (roundDouble (1 - 1 / 2 ^ 54)) = Finite 0"
    using probdenom_zero_iff[of "1 / 2 ^ 54"] by simp
  have a: "getElementsProbabilistically (\<lambda>i. 3 / 4) (QuadNode lowerLeftStored []) (0, 0)
             (\<lambda>d. 0) (0, []) = Inr (0, 0, [])"
    using getElementsProbabilistically_degenerate[of lowerLeftStored "(0, 0)" "(0, 5)" "\<lambda>d. 0" 0
        "\<lambda>i. 3 / 4" "[]" 0 "[]"]
      EuclideanDistances_lowerLeftStored
    by simp
  have b: "getElementsProbabilistically (\<lambda>i. 3 / 4) (QuadNode lowerLeftStored []) (0, 0)
             (\<lambda>d. 1 / 2 ^ 54) (0, []) = Inr (0, 0, [])"
    using getElementsProbabilistically_degenerate[of lowerLeftStored "(0, 0)" "(0, 5)"
        "\<lambda>d. 1 / 2 ^ 54" "1 / 2 ^ 54" "\<lambda>i. 3 / 4" "[]" 0 "[]"]
      EuclideanDistances_lowerLeftStored z
    by simp
  from a b z lowerLeftStored_built EuclideanDistances_lowerLeftStored
    getElementsProbabilistically_draws
  show ?thesis by simp
qed

section \<open>Stable identifiers\<close>

lemma consecutive_append:
  "consecutive n a @ consecutive (n + int a) b = consecutive n (a + b)"
proof -
  have "[a ..< a + b] = map (\<lambda>i. i + a) [0 ..< b]"
    by (simp add: map_add_upt add.commute)
  then have "map (\<lambda>i. n + int i) [a ..< a + b] = map (\<lambda>i. n + int a + int i) [0 ..< b]"
    by (simp add: o_def add.commute add.left_commute)
  then show ?thesis
    by (simp add: consecutive_def upt_add_eq_append[of 0 a b, simplified])
qed

lemma consecutive_Suc: "consecutive n k @ [n + int k] = consecutive n (Suc k)"
  by (simp add: consecutive_def)

lemma indexSubtree_post:
  "indexSubtree t n = Inr (t', n') \<Longrightarrow>
     n' = n + int (countNodes t) \<and> postorderIDs t' = consecutive n (countNodes t) \<and>
     clearIDs t' = clearIDs t"
  "indexSubtreeChildren cs n = Inr (cs', n') \<Longrightarrow>
     n' = n + int (sum_list (map countNodes cs)) \<and>
     concat (map postorderIDs cs') = consecutive n (sum_list (map countNodes cs)) \<and>
     map clearIDs cs' = map clearIDs cs"
proof (induction t n and cs n arbitrary: t' n' and cs' n' rule: indexSubtree_indexSubtreeChildren.induct)
  case (1 f cs nextID)
  from "1.prems" obtain cs' r where
    ch: "indexSubtreeChildren cs nextID = Inr (cs', r)" and
    t': "t' = QuadNode (f\<lparr>ID := r\<rparr>) cs'" and n': "n' = r + 1" and
    len: "length cs = 4 \<or> length cs = 0"
    by (auto split: if_splits sum.splits)
  from "1.IH"[OF _ ch] len have
    r: "r = nextID + int (sum_list (map countNodes cs))" and
    ids: "concat (map postorderIDs cs') = consecutive nextID (sum_list (map countNodes cs))" and
    cl: "map clearIDs cs' = map clearIDs cs"
    by auto
  show ?case
    using r ids cl by (simp add: t' n' consecutive_Suc)
next
  case (2 result)
  then show ?case by (simp add: consecutive_def)
next
  case (3 c cs result)
  from "3.prems" obtain c' r1 cs1 where
    c: "indexSubtree c result = Inr (c', r1)" and
    r: "indexSubtreeChildren cs r1 = Inr (cs1, n')" and
    cs': "cs' = c' # cs1"
    by (auto split: sum.splits)
  from "3.IH"(1)[OF c] have
    a: "r1 = result + int (countNodes c)" "postorderIDs c' = consecutive result (countNodes c)"
       "clearIDs c' = clearIDs c"
    by auto
  from "3.IH"(2)[OF c _ r] have
    b: "n' = r1 + int (sum_list (map countNodes cs))"
       "concat (map postorderIDs cs1) = consecutive r1 (sum_list (map countNodes cs))"
       "map clearIDs cs1 = map clearIDs cs"
    by auto
  show ?case
    using a b by (simp add: cs' consecutive_append)
qed

lemma indexSubtree_total:
  "fourOrNone t \<Longrightarrow> \<exists>t'. indexSubtree t n = Inr (t', n + int (countNodes t))"
  "list_all fourOrNone cs \<Longrightarrow> \<exists>cs'. indexSubtreeChildren cs n = Inr (cs', n + int (sum_list (map countNodes cs)))"
proof (induction t n and cs n rule: indexSubtree_indexSubtreeChildren.induct)
  case (1 f cs nextID)
  then show ?case by (auto split: sum.splits)
next
  case (2 result)
  then show ?case by simp
next
  case (3 c cs result)
  from "3.prems" have fc: "fourOrNone c" and fcs: "list_all fourOrNone cs" by auto
  from "3.IH"(1)[OF fc] obtain c' where c: "indexSubtree c result = Inr (c', result + int (countNodes c))"
    by blast
  from "3.IH"(2)[OF c refl fcs] obtain cs' where
    "indexSubtreeChildren cs (result + int (countNodes c)) = Inr (cs', result + int (countNodes c) + int (sum_list (map countNodes cs)))"
    by blast
  with c show ?case by (simp add: add.assoc)
qed

lemma split_unit: "split (newQuadNode (0, 0) (1, 1) 4 True) = Inr quadrants"
  by (simp add: quadrants_def eval_defs)

text \<open>
  C8, as the code has it: \<open>indexSubtree\<close> numbers every node of the subtree, internal
  nodes as well as leaves, in post-order (the children in their order, then the node
  itself) with the consecutive identifiers from \<open>nextID\<close> on, and returns \<open>nextID\<close> plus
  the number of nodes; nothing but the identifiers changes. It returns whenever every
  node has four children or none.
\<close>

theorem indexSubtree_postorder:
  "(fourOrNone t \<longrightarrow> (\<exists>t'. indexSubtree t nextID = Inr (t', nextID + int (countNodes t)))) \<and>
   (\<forall>t' n'. indexSubtree t nextID = Inr (t', n') \<longrightarrow>
      n' = nextID + int (countNodes t) \<and>
      postorderIDs t' = consecutive nextID (countNodes t) \<and>
      clearIDs t' = clearIDs t)"
  using indexSubtree_total(1)[of t nextID] indexSubtree_post(1)[of t nextID] by blast

theorem indexSubtree_postorder_witness:
  "fourOrNone quadrants \<and>
   (\<exists>t'. indexSubtree quadrants 7 = Inr (t', 12) \<and> postorderIDs t' = [7, 8, 9, 10, 11])"
  using indexSubtree_postorder[of quadrants 7]
  by (auto simp: quadrants_def newQuadNode_def consecutive_def upt_rec)

text \<open>
  The claim as stated fails on the unit square after a split: the internal root, whose
  identifier was 0, receives the identifier 4.
\<close>

theorem indexSubtree_internal_counterexample:
  "split (newQuadNode (0, 0) (1, 1) 4 True) = Inr quadrants \<and>
   \<not> isLeaf (fields quadrants) \<and> ID (fields quadrants) = 0 \<and>
   (case indexSubtree quadrants 0 of
      Inl e \<Rightarrow> False
    | Inr (t', n) \<Rightarrow> \<not> isLeaf (fields t') \<and> ID (fields t') = 4 \<and>
                     map (\<lambda>c. ID (fields c)) (children t') = [0, 1, 2, 3] \<and> n = 5)"
  by (simp add: split_unit) (simp add: quadrants_def newQuadNode_def)

section \<open>The pairing of identifiers and positions\<close>

lemma wellFormed_paired: "wellFormed t \<Longrightarrow> paired t"
proof (induction t)
  case (QuadNode f cs)
  then show ?case by (auto simp: nodeOK_def)
qed

lemma mset_concat_insert:
  assumes "j < length cs" and "mset (F c') = mset (F (cs ! j)) + {#e#}"
  shows "mset (concat (map F (cs[j := c']))) = mset (concat (map F cs)) + {#e#}"
proof -
  have "mset (concat (map F ((cs[j := c'])[j := cs ! j]))) + {#e#}
          = mset (concat (map F (cs[j := c'])))"
    by (rule mset_concat_update) (use assms in simp_all)
  then show ?thesis by simp
qed

lemma storedPairs_new: "storedPairs (newQuadNode lower upper cap st) = []"
  by (simp add: newQuadNode_def)

lemma paired_new: "paired (newQuadNode lower upper cap st)"
  by (simp add: newQuadNode_def)

lemma adds_paired:
  "adds n input pos n' \<Longrightarrow> paired n \<Longrightarrow>
     paired n' \<and> mset (storedPairs n') = mset (storedPairs n) + {#(input, pos)#}"
  "addsAll n xs n' \<Longrightarrow> paired n \<Longrightarrow> \<not> isLeaf (fields n) \<Longrightarrow>
     paired n' \<and> mset (storedPairs n') = mset (storedPairs n) + mset xs"
proof (induction rule: adds_addsAll.inducts)
  case (room input f pos cs)
  then show ?case by simp
next
  case (full input f pos cs n1 n2 n')
  from split_Inr[OF full.hyps(6)] obtain mx my where
    n1: "n1 = QuadNode (f\<lparr>isLeaf := False\<rparr>)
                  [newQuadNode (minX f, minY f) (mx, my) (capacity f) (splitTheoretical f),
                   newQuadNode (mx, minY f) (maxX f, my) (capacity f) (splitTheoretical f),
                   newQuadNode (minX f, my) (mx, maxY f) (capacity f) (splitTheoretical f),
                   newQuadNode (mx, my) (maxX f, maxY f) (capacity f) (splitTheoretical f)]"
    by blast
  have p1: "paired n1" "\<not> isLeaf (fields n1)" "storedPairs n1 = []"
    using full.prems by (simp_all add: n1 paired_new storedPairs_new)
  from full.IH(1)[OF p1(1,2)] p1(3) have
    n2: "paired n2" "mset (storedPairs n2) = mset (zip (content f) (positions f))"
    by simp_all
  have i2: "\<not> isLeaf (fields n2)" using adds_internal(2)[OF full.hyps(7) p1(2)] by simp
  let ?n3 = "QuadNode ((fields n2)\<lparr>subTreeSize := int (length (content (fields n2))),
                                content := [], positions := []\<rparr>) (children n2)"
  have p3: "paired ?n3" "storedPairs ?n3 = storedPairs n2"
    using n2(1) i2 by (cases n2; simp)+
  from full.IH(2)[OF p3(1)] p3(2) n2(2) full.hyps(4) show ?case by simp
next
  case (internal input f pos cs i c')
  from findResponsibleChild_Some[OF internal.hyps(5)] have i: "i < length cs" by simp
  with internal.prems have "paired (cs ! i)" by simp
  from internal.IH[OF this] have
    c': "paired c'" "mset (storedPairs c') = mset (storedPairs (cs ! i)) + {#(input, pos)#}"
    by simp_all
  have "set (cs[i := c']) \<subseteq> insert c' (set cs)" by (rule set_update_subset_insert)
  with c'(1) internal.prems have "paired (QuadNode (f\<lparr>subTreeSize := subTreeSize f + 1\<rparr>) (cs[i := c']))"
    by auto
  moreover have "mset (concat (map storedPairs (cs[i := c'])))
                   = mset (concat (map storedPairs cs)) + {#(input, pos)#}"
    by (rule mset_concat_insert[OF i c'(2)])
  ultimately show ?case using internal.hyps(4) by simp
next
  case (all_nil n)
  then show ?case by simp
next
  case (all_cons n x n1 xs n2)
  from all_cons.IH(1)[OF all_cons.prems(1)] have
    a: "paired n1" "mset (storedPairs n1) = mset (storedPairs n) + {#x#}" by simp_all
  have "\<not> isLeaf (fields n1)" using adds_internal(1)[OF all_cons.hyps(1) all_cons.prems(2)] by simp
  from all_cons.IH(2)[OF a(1) this] a(2) show ?case by simp
qed

lemma removeContentChildren_pairs:
  assumes "\<And>c b c'. c \<in> set cs \<Longrightarrow> removeContent c input pos = Inr (b, c') \<Longrightarrow>
             mset (F c') + (if b then {#e#} else {#}) = mset (F c)"
  shows "removeContentChildren cs input pos r a = Inr (r', a', cs') \<Longrightarrow>
         mset (concat (map F cs')) + (if r' \<and> \<not> r then {#e#} else {#}) = mset (concat (map F cs))"
  using assms
proof (induction cs arbitrary: r a cs')
  case Nil
  then show ?case by auto
next
  case (Cons c cs)
  from removeContentChildren_Cons[OF Cons.prems(1)] obtain found c' cs1 where
    c: "removeContent c input pos = Inr (found, c')" and
    nb: "\<not> (found \<and> r)" and
    r: "removeContentChildren cs input pos (r \<or> found)
          (if \<not> isLeaf (fields c) then False else a) = Inr (r', a', cs1)" and
    cs': "cs' = c' # cs1"
    by blast
  have m: "mset (F c') + (if found then {#e#} else {#}) = mset (F c)"
    by (rule Cons.prems(2)[OF _ c]) simp
  have ih: "mset (concat (map F cs1)) + (if r' \<and> \<not> (r \<or> found) then {#e#} else {#})
              = mset (concat (map F cs))"
    by (rule Cons.IH[OF r]) (rule Cons.prems(2), simp_all)
  from removeContentChildren_allLeaves[OF r] have mono: "r \<or> found \<longrightarrow> r'" by simp
  show ?case
    using m ih nb mono by (cases found; cases r; cases r') (simp_all add: cs')
qed

lemma removeContent_paired:
  "removeContent n input pos = Inr (b, n') \<Longrightarrow> paired n \<Longrightarrow>
     paired n' \<and> (isLeaf (fields n) \<longrightarrow> isLeaf (fields n')) \<and>
     mset (storedPairs n') + (if b then {#(input, pos)#} else {#}) = mset (storedPairs n)"
proof (induction n arbitrary: b n')
  case (QuadNode f cs)
  note prems = QuadNode.prems
  from prems(2) have len: "length (content f) = length (positions f)"
    and kids: "\<forall>c \<in> set cs. paired c" by simp_all
  show ?case
  proof (cases "responsible f pos")
    case False
    with prems removeContent_outside[OF False, of cs input] show ?thesis
      by (simp del: removeContent.simps)
  next
    case resp: True
    show ?thesis
    proof (cases "isLeaf f")
      case leaf: True
      show ?thesis
      proof (cases b)
        case False
        from removeContent_leaf(2)[OF leaf prems(1) False] prems(2) False show ?thesis by simp
      next
        case True
        let ?i = "indexOf (content f) input"
        from removeContent_leaf(3)[OF leaf prems(1) True] have
          i: "?i < length (content f)" "?i < length (positions f)" "positions f ! ?i = pos" and
          n': "n' = QuadNode (f\<lparr>content := erase (content f) ?i,
                                 positions := erase (positions f) ?i\<rparr>) cs"
          by simp_all
        have z: "zip (content f) (positions f) ! ?i = (input, pos)"
          using i indexOf_nth[OF i(1)] by simp
        have "?i < length (zip (content f) (positions f))" using i by simp
        from mset_erase[OF this] z have
          "mset (erase (zip (content f) (positions f)) ?i) + {#(input, pos)#}
             = mset (zip (content f) (positions f))" by simp
        then show ?thesis
          using True leaf len kids i by (simp add: n' zip_erase[OF len] length_erase)
      qed
    next
      case internal: False
      from removeContent_internal[OF internal prems(1) resp] obtain allLeaves cs' where
        ch: "removeContentChildren cs input pos False True = Inr (b, allLeaves, cs')" and
        n': "n' = (let f1 = (if b then f\<lparr>subTreeSize := subTreeSize f - 1\<rparr> else f) in
                 if b \<and> allLeaves \<and> size_node f1 < coarsenLimit
                 then QuadNode (f1\<lparr>content := concat (map (\<lambda>c. content (fields c)) cs'),
                                   positions := concat (map (\<lambda>c. positions (fields c)) cs'),
                                   isLeaf := True\<rparr>) []
                 else QuadNode f1 cs')"
        by blast
      from removeContentChildren_allLeaves[OF ch] have
        al: "allLeaves = (\<forall>c \<in> set cs. isLeaf (fields c))" and l: "length cs' = length cs"
        by auto
      have each: "paired c' \<and> ((\<forall>c \<in> set cs. isLeaf (fields c)) \<longrightarrow> isLeaf (fields c'))"
        if "c' \<in> set cs'" for c'
      proof -
        from that obtain j where j: "j < length cs'" "c' = cs' ! j" by (auto simp: in_set_conv_nth)
        from removeContentChildren_pointwise[OF ch] j have
          "\<exists>b. removeContent (cs ! j) input pos = Inr (b, c')"
          by (simp add: list_all2_conv_all_nth)
        then obtain bj where r: "removeContent (cs ! j) input pos = Inr (bj, c')" by blast
        from j l have cj: "cs ! j \<in> set cs" by simp
        from QuadNode.IH[OF cj r] kids cj show ?thesis by auto
      qed
      have pairs: "mset (concat (map storedPairs cs')) + (if b then {#(input, pos)#} else {#})
                     = mset (concat (map storedPairs cs))"
      proof -
        have "mset (concat (map storedPairs cs')) + (if b \<and> \<not> False then {#(input, pos)#} else {#})
                     = mset (concat (map storedPairs cs))"
        proof (rule removeContentChildren_pairs[OF _ ch])
          fix c bc c' assume c: "c \<in> set cs" "removeContent c input pos = Inr (bc, c')"
          from QuadNode.IH[OF c] kids c(1)
          show "mset (storedPairs c') + (if bc then {#(input, pos)#} else {#}) = mset (storedPairs c)"
            by simp
        qed
        then show ?thesis by simp
      qed
      let ?f1 = "f\<lparr>subTreeSize := subTreeSize f - 1\<rparr>"
      show ?thesis
      proof (cases "b \<and> allLeaves \<and> size_node ?f1 < coarsenLimit")
        case False
        then have "n' = QuadNode (if b then ?f1 else f) cs'" using n' by (auto simp: Let_def)
        with each pairs internal len show ?thesis by auto
      next
        case True
        let ?content = "concat (map (\<lambda>c. content (fields c)) cs')"
        let ?positions = "concat (map (\<lambda>c. positions (fields c)) cs')"
        from True have n'': "n' = QuadNode (?f1\<lparr>content := ?content, positions := ?positions,
                                  isLeaf := True\<rparr>) []"
          using n' by (simp add: Let_def)
        have lv: "\<forall>c \<in> set cs'. isLeaf (fields c) \<and>
                    length (content (fields c)) = length (positions (fields c))"
        proof
          fix c assume c: "c \<in> set cs'"
          from each[OF c] True al have "paired c" "isLeaf (fields c)" by simp_all
          then show "isLeaf (fields c) \<and>
                    length (content (fields c)) = length (positions (fields c))"
            by (cases c) simp
        qed
        have "length ?content = length ?positions"
          using lv by (intro length_concat_eq) simp
        moreover have "storedPairs n' = concat (map storedPairs cs')"
          using storedPairs_coarsened[OF lv] by (simp add: n'')
        ultimately show ?thesis
          using pairs internal by (simp add: n'')
      qed
    qed
  qed
qed

lemma zip_nth_map:
  "length xs = length ys \<Longrightarrow> map (\<lambda>i. (xs ! i, ys ! i)) [0 ..< length xs] = zip xs ys"
  by (rule nth_equalityI) simp_all

lemma sorted_leaf:
  assumes "length xs = length ys"
  defines "perm \<equiv> sort_key (\<lambda>i. getX (ys ! i)) [0 ..< length xs]"
  shows "mset (zip (map (\<lambda>i. xs ! i) perm) (map (\<lambda>i. ys ! i) perm)) = mset (zip xs ys)"
    and "sorted (map getX (map (\<lambda>i. ys ! i) perm))"
    and "length (map (\<lambda>i. xs ! i) perm) = length xs"
    and "length (map (\<lambda>i. ys ! i) perm) = length ys"
proof -
  have z: "zip (map (\<lambda>i. xs ! i) perm) (map (\<lambda>i. ys ! i) perm) = map (\<lambda>i. (xs ! i, ys ! i)) perm"
    by (simp add: zip_map_map zip_same_conv_map)
  have "mset (map (\<lambda>i. (xs ! i, ys ! i)) perm) = mset (map (\<lambda>i. (xs ! i, ys ! i)) [0 ..< length xs])"
    unfolding perm_def by (simp add: mset_map)
  with z show "mset (zip (map (\<lambda>i. xs ! i) perm) (map (\<lambda>i. ys ! i) perm)) = mset (zip xs ys)"
    by (simp add: zip_nth_map[OF assms(1)])
  have "map getX (map (\<lambda>i. ys ! i) perm) = map (\<lambda>i. getX (ys ! i)) perm"
    by (simp add: o_def)
  then show "sorted (map getX (map (\<lambda>i. ys ! i) perm))"
    unfolding perm_def by (simp only: sorted_sort_key)
  show "length (map (\<lambda>i. xs ! i) perm) = length xs" by (simp add: perm_def)
  show "length (map (\<lambda>i. ys ! i) perm) = length ys" using assms(1) by (simp add: perm_def)
qed

lemma sortedBuffers_leaf:
  "isLeaf f \<Longrightarrow> length (content f) = length (positions f) \<Longrightarrow>
     sortedBuffers (QuadNode f cs) = sorted (map getX (positions f))"
  by (simp add: sortedBuffers_def map_snd_zip flip: map_map[unfolded o_def])

lemma sortedBuffers_internal:
  "\<not> isLeaf f \<Longrightarrow> sortedBuffers (QuadNode f cs) = (\<forall>c \<in> set cs. sortedBuffers c)"
  by (auto simp: sortedBuffers_def)

lemma sortChildren_Cons:
  assumes "sortPointsInLeavesChildren (c # cs) (Suc k) = Inr cs'"
  shows "\<exists>c' cs1. sortPointsInLeaves c = Inr c' \<and> sortPointsInLeavesChildren cs k = Inr cs1 \<and>
           cs' = c' # cs1"
  using assms by (auto split: sum.splits)

lemma sortChildren_sortedFrom:
  assumes "\<And>c c'. c \<in> set cs \<Longrightarrow> sortPointsInLeaves c = Inr c' \<Longrightarrow> paired c \<Longrightarrow>
             sortedFrom c c' \<and> (fourOrNone c \<longrightarrow> sortedBuffers c')"
  shows "sortPointsInLeavesChildren cs k = Inr cs' \<Longrightarrow> \<forall>c \<in> set cs. paired c \<Longrightarrow>
         (\<forall>c' \<in> set cs'. paired c') \<and>
         map mset (concat (map leafBuffers cs')) = map mset (concat (map leafBuffers cs)) \<and>
         map forgetBuffers cs' = map forgetBuffers cs \<and>
         (length cs \<le> k \<and> list_all fourOrNone cs \<longrightarrow> (\<forall>c' \<in> set cs'. sortedBuffers c'))"
  using assms
proof (induction cs arbitrary: k cs')
  case Nil
  then show ?case by (cases k) auto
next
  case (Cons c cs)
  show ?case
  proof (cases k)
    case 0
    with Cons.prems(1,2) show ?thesis by auto
  next
  case (Suc n)
  from sortChildren_Cons[OF Cons.prems(1)[unfolded Suc]] obtain c' cs1 where
    c: "sortPointsInLeaves c = Inr c'" and r: "sortPointsInLeavesChildren cs n = Inr cs1" and
    cs': "cs' = c' # cs1"
    by blast
  from Cons.prems(2) have pc: "paired c" and pcs: "\<forall>c \<in> set cs. paired c" by simp_all
  have a: "sortedFrom c c' \<and> (fourOrNone c \<longrightarrow> sortedBuffers c')"
    by (rule Cons.prems(3)[OF _ c pc]) simp
  have b: "(\<forall>c' \<in> set cs1. paired c') \<and>
         map mset (concat (map leafBuffers cs1)) = map mset (concat (map leafBuffers cs)) \<and>
         map forgetBuffers cs1 = map forgetBuffers cs \<and>
         (length cs \<le> n \<and> list_all fourOrNone cs \<longrightarrow> (\<forall>c' \<in> set cs1. sortedBuffers c'))"
    by (rule Cons.IH[OF r pcs]) (rule Cons.prems(3), simp_all)
  from a b show ?thesis by (auto simp: cs' sortedFrom_def Suc)
  qed
qed

lemma sortPointsInLeaves_sortedFrom:
  "sortPointsInLeaves t = Inr t' \<Longrightarrow> paired t \<Longrightarrow>
     sortedFrom t t' \<and> (fourOrNone t \<longrightarrow> sortedBuffers t')"
proof (induction t arbitrary: t')
  case (QuadNode f cs)
  from QuadNode.prems(2) have len: "length (content f) = length (positions f)"
    and kids: "\<forall>c \<in> set cs. paired c" by simp_all
  show ?case
  proof (cases "isLeaf f")
    case True
    let ?perm = "sort_key (\<lambda>i. getX (positions f ! i)) [0 ..< length (content f)]"
    let ?f' = "f\<lparr>content := map (\<lambda>perm. content f ! perm) ?perm,
                  positions := map (\<lambda>perm. positions f ! perm) ?perm\<rparr>"
    from QuadNode.prems(1) True len have t': "t' = QuadNode ?f' cs"
      by (simp add: Let_def)
    note s = sorted_leaf[OF len]
    have l': "length (content ?f') = length (positions ?f')" using s(3,4) len by simp
    have "sortedFrom (QuadNode f cs) (QuadNode ?f' cs)"
      using True kids s(1) l' by (simp add: sortedFrom_def)
    moreover have "sortedBuffers (QuadNode ?f' cs)"
      using sortedBuffers_leaf[of ?f' cs] True l' s(2) by simp
    ultimately show ?thesis by (simp add: t')
  next
    case False
    with QuadNode.prems(1) obtain cs' where
      ch: "sortPointsInLeavesChildren cs (Suc (Suc (Suc (Suc 0)))) = Inr cs'" and
      t': "t' = QuadNode f cs'"
      by (auto split: sum.splits)
    have r: "(\<forall>c' \<in> set cs'. paired c') \<and>
         map mset (concat (map leafBuffers cs')) = map mset (concat (map leafBuffers cs)) \<and>
         map forgetBuffers cs' = map forgetBuffers cs \<and>
         (length cs \<le> Suc (Suc (Suc (Suc 0))) \<and> list_all fourOrNone cs
            \<longrightarrow> (\<forall>c' \<in> set cs'. sortedBuffers c'))"
      by (rule sortChildren_sortedFrom[OF _ ch kids]) (rule QuadNode.IH)
    have nz: "cs \<noteq> []" using ch by (cases cs) auto
    have "sortedFrom (QuadNode f cs) (QuadNode f cs')"
      using r len False by (simp add: sortedFrom_def)
    moreover have "sortedBuffers (QuadNode f cs')" if "fourOrNone (QuadNode f cs)"
    proof -
      from that nz have "length cs = 4" "list_all fourOrNone cs" by auto
      with r have "\<forall>c' \<in> set cs'. sortedBuffers c'" by simp
      then show ?thesis using False by (simp add: sortedBuffers_internal)
    qed
    ultimately show ?thesis by (auto simp: t')
  qed
qed

lemma reindexChildren_Cons:
  assumes "reindexChildren (c # cs) (Suc k) offset = Inr (cs', offset')"
  shows "\<exists>c' o1 cs1. reindex c offset = Inr (c', o1) \<and> reindexChildren cs k o1 = Inr (cs1, offset') \<and>
           cs' = c' # cs1"
  using assms by (auto split: sum.splits)

lemma reindexChildren_forgetIds:
  assumes "\<And>c offset c' offset'. c \<in> set cs \<Longrightarrow> reindex c offset = Inr (c', offset') \<Longrightarrow>
             forgetIds c' = forgetIds c"
  shows "reindexChildren cs k offset = Inr (cs', offset') \<Longrightarrow>
         map forgetIds cs' = map forgetIds cs"
  using assms
proof (induction cs arbitrary: k offset cs' offset')
  case Nil
  then show ?case by (cases k) auto
next
  case (Cons c cs)
  show ?case
  proof (cases k)
    case 0
    with Cons.prems(1) show ?thesis by auto
  next
  case (Suc n)
  from reindexChildren_Cons[OF Cons.prems(1)[unfolded Suc]] obtain c' o1 cs1 where
    c: "reindex c offset = Inr (c', o1)" and r: "reindexChildren cs n o1 = Inr (cs1, offset')" and
    cs': "cs' = c' # cs1"
    by blast
  have "forgetIds c' = forgetIds c" by (rule Cons.prems(2)[OF _ c]) simp
  moreover have "map forgetIds cs1 = map forgetIds cs"
    by (rule Cons.IH[OF r]) (rule Cons.prems(2), simp_all)
  ultimately show ?thesis by (simp add: cs')
  qed
qed

lemma reindex_forgetIds:
  "reindex t offset = Inr (t', offset') \<Longrightarrow> forgetIds t' = forgetIds t"
proof (induction t arbitrary: offset t' offset')
  case (QuadNode f cs)
  show ?case
  proof (cases "isLeaf f")
    case True
    with QuadNode.prems show ?thesis by auto
  next
    case False
    with QuadNode.prems obtain cs' where
      ch: "reindexChildren cs (Suc (Suc (Suc (Suc 0)))) offset = Inr (cs', offset')" and
      t': "t' = QuadNode f cs'"
      by (auto split: sum.splits)
    have "map forgetIds cs' = map forgetIds cs"
      by (rule reindexChildren_forgetIds[OF _ ch]) (rule QuadNode.IH)
    then show ?thesis by (simp add: t')
  qed
qed

lemma paired_forgetIds: "paired (forgetIds t) = paired t"
  by (induction t) simp

lemma paired_clearIDs: "paired (clearIDs t) = paired t"
  by (induction t) simp

lemma storedPairs_clearIDs: "storedPairs (clearIDs t) = storedPairs t"
proof (induction t)
  case (QuadNode f cs)
  then have "map (storedPairs \<circ> clearIDs) cs = map storedPairs cs" by (intro map_cong) simp_all
  from arg_cong[OF this, of concat] show ?case by simp
qed

lemma recount_paired: "paired (recount t) = paired t"
  by (induction t) (simp add: Let_def)

lemma storedPairs_recount: "storedPairs (recount t) = storedPairs t"
proof (induction t)
  case (QuadNode f cs)
  then have "map (storedPairs \<circ> recount) cs = map storedPairs cs" by (intro map_cong) simp_all
  from arg_cong[OF this, of concat] show ?case by (simp add: Let_def)
qed

lemma wellFormed_fourOrNone: "wellFormed t \<Longrightarrow> fourOrNone t"
proof (induction t)
  case (QuadNode f cs)
  from QuadNode.prems have ok: "nodeOK f cs" and kids: "\<forall>c \<in> set cs. wellFormed c" by simp_all
  from ok have "length cs = 4 \<or> length cs = 0" by (cases "isLeaf f") (simp_all add: nodeOK_def)
  moreover have "list_all fourOrNone cs" using QuadNode.IH kids by (simp add: list_all_iff)
  ultimately show ?case by simp
qed

lemma sortChildren_returns:
  assumes "\<And>c. c \<in> set cs \<Longrightarrow> \<exists>c'. sortPointsInLeaves c = Inr c'"
  shows "k \<le> length cs \<Longrightarrow> \<exists>cs'. sortPointsInLeavesChildren cs k = Inr cs'"
  using assms
proof (induction cs arbitrary: k)
  case Nil
  then show ?case by simp
next
  case (Cons c cs)
  show ?case
  proof (cases k)
    case 0
    then show ?thesis by simp
  next
    case (Suc n)
    from Cons.prems(2)[of c] obtain c' where c: "sortPointsInLeaves c = Inr c'" by auto
    have "\<exists>cs'. sortPointsInLeavesChildren cs n = Inr cs'"
      by (rule Cons.IH) (use Cons.prems Suc in auto)
    with c show ?thesis by (auto simp: Suc)
  qed
qed

lemma sortPointsInLeaves_returns: "wellFormed t \<Longrightarrow> \<exists>t'. sortPointsInLeaves t = Inr t'"
proof (induction t)
  case (QuadNode f cs)
  from QuadNode.prems have ok: "nodeOK f cs" and kids: "\<forall>c \<in> set cs. wellFormed c" by simp_all
  show ?case
  proof (cases "isLeaf f")
    case True
    with ok show ?thesis by (simp add: nodeOK_def Let_def)
  next
    case False
    with ok have "length cs = 4" by (simp add: nodeOK_def)
    then have "Suc (Suc (Suc (Suc 0))) \<le> length cs" by simp
    then have "\<exists>cs'. sortPointsInLeavesChildren cs (Suc (Suc (Suc (Suc 0)))) = Inr cs'"
      by (rule sortChildren_returns[rotated]) (use QuadNode.IH kids in blast)
    with False show ?thesis by auto
  qed
qed

lemma reindexChildren_ids:
  assumes "\<And>c offset. c \<in> set cs \<Longrightarrow>
             \<exists>c'. reindex c offset = Inr (c', offset + length (storedPairs c)) \<and>
                  map fst (storedPairs c') = [offset ..< offset + length (storedPairs c)]"
  shows "\<exists>cs'. reindexChildren cs (length cs) offset
                  = Inr (cs', offset + length (concat (map storedPairs cs))) \<and>
               concat (map (\<lambda>c. map fst (storedPairs c)) cs')
                  = [offset ..< offset + length (concat (map storedPairs cs))]"
  using assms
proof (induction cs arbitrary: offset)
  case Nil
  then show ?case by simp
next
  case (Cons c cs)
  let ?a = "length (storedPairs c)" and ?b = "length (concat (map storedPairs cs))"
  from Cons.prems[of c offset] obtain c' where
    c: "reindex c offset = Inr (c', offset + ?a)"
       "map fst (storedPairs c') = [offset ..< offset + ?a]" by auto
  have "\<exists>cs'. reindexChildren cs (length cs) (offset + ?a) = Inr (cs', offset + ?a + ?b) \<and>
               concat (map (\<lambda>c. map fst (storedPairs c)) cs') = [offset + ?a ..< offset + ?a + ?b]"
    by (rule Cons.IH) (rule Cons.prems, simp)
  then obtain cs' where
    r: "reindexChildren cs (length cs) (offset + ?a) = Inr (cs', offset + ?a + ?b)"
       "concat (map (\<lambda>c. map fst (storedPairs c)) cs') = [offset + ?a ..< offset + ?a + ?b]"
    by blast
  have u: "[offset ..< offset + ?a] @ [offset + ?a ..< offset + ?a + ?b] = [offset ..< offset + ?a + ?b]"
    using upt_add_eq_append[of offset "offset + ?a" ?b] by simp
  have step: "reindexChildren (c # cs) (length (c # cs)) offset = Inr (c' # cs', offset + ?a + ?b)"
    using c(1) r(1) by simp
  have ids: "concat (map (\<lambda>c. map fst (storedPairs c)) (c' # cs')) = [offset ..< offset + ?a + ?b]"
    using c(2) r(2) u by simp
  have l: "offset + length (concat (map storedPairs (c # cs))) = offset + ?a + ?b" by simp
  show ?case unfolding l using step ids by blast
qed

lemma reindex_ids:
  "wellFormed t \<Longrightarrow>
     \<exists>t'. reindex t offset = Inr (t', offset + length (storedPairs t)) \<and>
          map fst (storedPairs t') = [offset ..< offset + length (storedPairs t)]"
proof (induction t arbitrary: offset)
  case (QuadNode f cs)
  from QuadNode.prems have ok: "nodeOK f cs" and kids: "\<forall>c \<in> set cs. wellFormed c" by simp_all
  from ok have len: "length (content f) = length (positions f)" by (simp add: nodeOK_def)
  show ?case
  proof (cases "isLeaf f")
    case True
    with len show ?thesis by (simp add: size_node_def)
  next
    case False
    with ok have four: "Suc (Suc (Suc (Suc 0))) = length cs" by (simp add: nodeOK_def)
    have "\<exists>cs'. reindexChildren cs (length cs) offset
                  = Inr (cs', offset + length (concat (map storedPairs cs))) \<and>
               concat (map (\<lambda>c. map fst (storedPairs c)) cs')
                  = [offset ..< offset + length (concat (map storedPairs cs))]"
      by (rule reindexChildren_ids) (use QuadNode.IH kids in blast)
    then obtain cs' where
      r: "reindexChildren cs (length cs) offset
            = Inr (cs', offset + length (concat (map storedPairs cs)))"
         "concat (map (\<lambda>c. map fst (storedPairs c)) cs')
            = [offset ..< offset + length (concat (map storedPairs cs))]"
      by blast
    have m: "map fst (concat (map storedPairs cs')) = concat (map (\<lambda>c. map fst (storedPairs c)) cs')"
      by (simp add: map_concat o_def)
    have "reindex (QuadNode f cs) offset
            = Inr (QuadNode f cs', offset + length (concat (map storedPairs cs)))"
      using r(1) False by (simp add: four)
    moreover have "map fst (storedPairs (QuadNode f cs'))
            = [offset ..< offset + length (concat (map storedPairs cs))]"
      using False m r(2) by simp
    moreover have "storedPairs (QuadNode f cs) = concat (map storedPairs cs)"
      using False by simp
    ultimately show ?thesis by (simp del: reindex.simps storedPairs.simps)
  qed
qed

text \<open>
  C10: every tree built by insertions and removals is paired, and on it
  \<open>sortPointsInLeaves\<close>, \<open>reindex\<close> and \<open>indexSubtree\<close> return: the first leaves
  every leaf sorted by non-decreasing x-coordinate, the second numbers the stored elements
  from the offset on, in the order of the leaves. On a paired tree every operation that
  returns leaves a paired tree. An insertion adds the pair (identifier, position) to the
  stored pairs and a removal that finds the identifier takes that pair away, the other
  pairs staying as they were. \<open>sortPointsInLeaves\<close> changes nothing but the buffers,
  keeps in every leaf the same pairs and, when every node has four children or none,
  leaves every leaf sorted. \<open>reindex\<close> changes nothing but the values of the
  identifiers. \<open>indexSubtree\<close> and \<open>recount\<close> keep the stored pairs.
\<close>

theorem pairing_preserved:
  "(built t \<longrightarrow>
      paired t \<and>
      (\<exists>t'. sortPointsInLeaves t = Inr t' \<and> sortedBuffers t') \<and>
      (\<exists>t'. reindex t offset = Inr (t', offset + length (storedPairs t)) \<and>
            map fst (storedPairs t') = [offset ..< offset + length (storedPairs t)]) \<and>
      (\<exists>t' n'. indexSubtree t nextID = Inr (t', n'))) \<and>
   (paired t \<longrightarrow>
     (\<forall>t'. addContent k t input pos = Some (Inr t') \<longrightarrow>
        paired t' \<and> mset (storedPairs t') = mset (storedPairs t) + {#(input, pos)#}) \<and>
     (\<forall>b t'. removeContent t input pos = Inr (b, t') \<longrightarrow>
        paired t' \<and>
        mset (storedPairs t') + (if b then {#(input, pos)#} else {#}) = mset (storedPairs t)) \<and>
     (\<forall>t'. sortPointsInLeaves t = Inr t' \<longrightarrow>
        paired t' \<and> map mset (leafBuffers t') = map mset (leafBuffers t) \<and>
        forgetBuffers t' = forgetBuffers t \<and> (fourOrNone t \<longrightarrow> sortedBuffers t')) \<and>
     (\<forall>t' offset'. reindex t offset = Inr (t', offset') \<longrightarrow>
        paired t' \<and> forgetIds t' = forgetIds t) \<and>
     (\<forall>t' n'. indexSubtree t nextID = Inr (t', n') \<longrightarrow>
        paired t' \<and> storedPairs t' = storedPairs t) \<and>
     paired (recount t) \<and> storedPairs (recount t) = storedPairs t)"
proof -
  have 0: "paired t \<and>
      (\<exists>t'. sortPointsInLeaves t = Inr t' \<and> sortedBuffers t') \<and>
      (\<exists>t'. reindex t offset = Inr (t', offset + length (storedPairs t)) \<and>
            map fst (storedPairs t') = [offset ..< offset + length (storedPairs t)]) \<and>
      (\<exists>t' n'. indexSubtree t nextID = Inr (t', n'))"
    if "built t"
  proof -
    from that have w: "wellFormed t" by (rule built_wellFormed)
    then have p: "paired t" and f: "fourOrNone t"
      by (rule wellFormed_paired, rule wellFormed_fourOrNone)
    from sortPointsInLeaves_returns[OF w] obtain t' where
      s: "sortPointsInLeaves t = Inr t'" by blast
    from sortPointsInLeaves_sortedFrom[OF s p] f have "sortedBuffers t'" by blast
    with s have 1: "\<exists>t'. sortPointsInLeaves t = Inr t' \<and> sortedBuffers t'" by blast
    from indexSubtree_total(1)[OF f, of nextID] have
      2: "\<exists>t' n'. indexSubtree t nextID = Inr (t', n')" by blast
    from p 1 reindex_ids[OF w, of offset] 2 show ?thesis by blast
  qed
  have 1: "paired t' \<and> mset (storedPairs t') = mset (storedPairs t) + {#(input, pos)#}"
    if "paired t" "addContent k t input pos = Some (Inr t')" for t'
    using adds_paired(1)[OF addContent_adds[OF that(2)] that(1)] .
  have 2: "paired t' \<and>
        mset (storedPairs t') + (if b then {#(input, pos)#} else {#}) = mset (storedPairs t)"
    if "paired t" "removeContent t input pos = Inr (b, t')" for b t'
    using removeContent_paired[OF that(2,1)] by simp
  have 3: "paired t' \<and> map mset (leafBuffers t') = map mset (leafBuffers t) \<and>
        forgetBuffers t' = forgetBuffers t \<and> (fourOrNone t \<longrightarrow> sortedBuffers t')"
    if "paired t" "sortPointsInLeaves t = Inr t'" for t'
    using sortPointsInLeaves_sortedFrom[OF that(2,1)] by (simp add: sortedFrom_def)
  have 4: "paired t' \<and> forgetIds t' = forgetIds t"
    if "paired t" "reindex t offset = Inr (t', offset')" for t' offset'
  proof -
    from reindex_forgetIds[OF that(2)] have f: "forgetIds t' = forgetIds t" .
    have "paired t' = paired (forgetIds t')" by (simp add: paired_forgetIds)
    also have "\<dots> = paired (forgetIds t)" by (simp only: f)
    also have "\<dots> = paired t" by (simp add: paired_forgetIds)
    finally show ?thesis using that(1) f by simp
  qed
  have 5: "paired t' \<and> storedPairs t' = storedPairs t"
    if "paired t" "indexSubtree t nextID = Inr (t', n')" for t' n'
  proof -
    from indexSubtree_post(1)[OF that(2)] have c: "clearIDs t' = clearIDs t" by simp
    have "paired t' = paired (clearIDs t')" by (simp add: paired_clearIDs)
    also have "\<dots> = paired (clearIDs t)" by (simp only: c)
    also have "\<dots> = paired t" by (simp add: paired_clearIDs)
    finally have p: "paired t'" using that(1) by simp
    have "storedPairs t' = storedPairs (clearIDs t')" by (simp add: storedPairs_clearIDs)
    also have "\<dots> = storedPairs (clearIDs t)" by (simp only: c)
    also have "\<dots> = storedPairs t" by (simp add: storedPairs_clearIDs)
    finally show ?thesis using p by simp
  qed
  have 6: "paired t \<longrightarrow> paired (recount t) \<and> storedPairs (recount t) = storedPairs t"
    by (simp add: recount_paired storedPairs_recount)
  from 0 1 2 3 4 5 6 show ?thesis by blast
qed

lemma unsortedTree_steps:
  "addContent 1 (newQuadNode (0, 0) (1, 1) 3 True) 0 (3 / 8, 1 / 8)
     = Some (Inr (QuadNode \<lparr>minX = 0, minY = 0, maxX = 1, maxY = 1, capacity = 3, subTreeSize = 0,
       content = [0], positions = [(3 / 8, 1 / 8)], isLeaf = True,
       splitTheoretical = True, ID = 0\<rparr> []))"
  "addContent 1 (QuadNode \<lparr>minX = 0, minY = 0, maxX = 1, maxY = 1, capacity = 3, subTreeSize = 0,
       content = [0], positions = [(3 / 8, 1 / 8)], isLeaf = True,
       splitTheoretical = True, ID = 0\<rparr> []) 1 (1 / 8, 3 / 8) = Some (Inr unsortedLeaf)"
  "addContent 3 unsortedLeaf 2 (3 / 4, 3 / 4) = Some (Inr unsortedTree)"
  by (simp_all add: unsortedLeaf_def unsortedTree_def eval_defs numeral_3_eq_3)

lemma built_unsortedLeaf: "built unsortedLeaf"
  by (rule added[OF added[OF constructed unsortedTree_steps(1)] unsortedTree_steps(2)])

lemma built_unsortedTree: "built unsortedTree"
  by (rule added[OF built_unsortedLeaf unsortedTree_steps(3)])

lemma sort_unsortedTree: "sortPointsInLeaves unsortedTree = Inr sortedTree"
  by (simp add: unsortedTree_def sortedTree_def newQuadNode_def Let_def getX_def upt_rec)

lemma reindex_unsortedTree: "reindex unsortedTree 5 = Inr (reindexedTree, 8)"
  by (simp add: unsortedTree_def reindexedTree_def newQuadNode_def size_node_def upt_rec)

lemma remove_unsortedTree: "removeContent unsortedTree 2 (3 / 4, 3 / 4) = Inr (True, coarsenedLeaf)"
  by (simp add: unsortedTree_def coarsenedLeaf_def eval_defs)

theorem pairing_preserved_witness:
  "built unsortedLeaf \<and> paired unsortedLeaf \<and>
   addContent 3 unsortedLeaf 2 (3 / 4, 3 / 4) = Some (Inr unsortedTree) \<and>
   built unsortedTree \<and> paired unsortedTree \<and>
   mset (storedPairs unsortedTree) = mset (storedPairs unsortedLeaf) + {#(2, (3 / 4, 3 / 4))#} \<and>
   sortPointsInLeaves unsortedTree = Inr sortedTree \<and> paired sortedTree \<and>
   sortedBuffers sortedTree \<and>
   map mset (leafBuffers sortedTree) = map mset (leafBuffers unsortedTree) \<and>
   forgetBuffers sortedTree = forgetBuffers unsortedTree \<and>
   reindex unsortedTree 5 = Inr (reindexedTree, 8) \<and> paired reindexedTree \<and>
   forgetIds reindexedTree = forgetIds unsortedTree \<and>
   map fst (storedPairs reindexedTree) = [5, 6, 7] \<and>
   removeContent unsortedTree 2 (3 / 4, 3 / 4) = Inr (True, coarsenedLeaf) \<and>
   paired coarsenedLeaf \<and>
   mset (storedPairs coarsenedLeaf) + {#(2, (3 / 4, 3 / 4))#} = mset (storedPairs unsortedTree) \<and>
   paired (recount unsortedTree)"
proof -
  note l = pairing_preserved[of unsortedLeaf _ _ 3 2 "(3 / 4, 3 / 4)"]
  note t = pairing_preserved[of unsortedTree 5 _ _ 2 "(3 / 4, 3 / 4)"]
  from l built_unsortedLeaf have pl: "paired unsortedLeaf" by blast
  from l pl unsortedTree_steps(3) have
    a: "mset (storedPairs unsortedTree)
          = mset (storedPairs unsortedLeaf) + {#(2, (3 / 4, 3 / 4))#}"
    by blast
  from t built_unsortedTree have p: "paired unsortedTree" by blast
  from t built_unsortedTree have "\<exists>t'. sortPointsInLeaves unsortedTree = Inr t' \<and> sortedBuffers t'"
    by blast
  with sort_unsortedTree have s: "sortedBuffers sortedTree" by simp
  from t built_unsortedTree have
    "\<exists>t'. reindex unsortedTree 5 = Inr (t', 5 + length (storedPairs unsortedTree)) \<and>
          map fst (storedPairs t') = [5 ..< 5 + length (storedPairs unsortedTree)]"
    by blast
  with reindex_unsortedTree have
    "map fst (storedPairs reindexedTree) = [5 ..< 5 + length (storedPairs unsortedTree)]"
    by auto
  then have i: "map fst (storedPairs reindexedTree) = [5, 6, 7]"
    by (simp add: unsortedTree_def newQuadNode_def upt_rec)
  from t p remove_unsortedTree have
    "paired coarsenedLeaf \<and>
     mset (storedPairs coarsenedLeaf) + (if True then {#(2, (3 / 4, 3 / 4))#} else {#})
       = mset (storedPairs unsortedTree)"
    by blast
  then have r: "paired coarsenedLeaf"
    "mset (storedPairs coarsenedLeaf) + {#(2, (3 / 4, 3 / 4))#} = mset (storedPairs unsortedTree)"
    by simp_all
  from t p sort_unsortedTree have
    "paired sortedTree \<and> map mset (leafBuffers sortedTree) = map mset (leafBuffers unsortedTree) \<and>
     forgetBuffers sortedTree = forgetBuffers unsortedTree"
    by blast
  moreover from t p reindex_unsortedTree have
    "paired reindexedTree \<and> forgetIds reindexedTree = forgetIds unsortedTree"
    by blast
  moreover from t p have "paired (recount unsortedTree)" by blast
  ultimately show ?thesis
    using built_unsortedLeaf pl unsortedTree_steps(3) built_unsortedTree p a s i r
      sort_unsortedTree reindex_unsortedTree remove_unsortedTree
    by blast
qed

end
